theory Spec2Isabelle
  imports Main "HOL-Library.Word" "HOL-Library.Sublist" "HOL-Library.Multiset"
    "HOL-Library.Product_Lexorder" "HOL-Library.List_Lexorder"
begin

section \<open>JavaScript values used by the file search view\<close>

text \<open>
  A JavaScript string is a sequence of UTF-16 code units; \<open>length\<close>, \<open>indexOf\<close> and
  \<open>substring\<close> count code units. \<open>js\<close> writes an ASCII literal as such a sequence.
\<close>

type_synonym code_unit = "16 word"
type_synonym jsstring = "code_unit list"

definition js :: "string \<Rightarrow> jsstring" where
  "js s = map of_char s"

text \<open>
  The numbers the comparator handles: finite integers, the two infinities and NaN.
  \<open>jsnum_minus\<close> is the subtraction of IEEE doubles on these values, \<open>strictNotEqual\<close>
  is \<open>!==\<close> (NaN differs from everything, itself included).
\<close>

datatype jsnum = Fin int | PosInf | NegInf | NaN

fun jsnum_minus :: "jsnum \<Rightarrow> jsnum \<Rightarrow> jsnum" where
  "jsnum_minus NaN _ = NaN"
| "jsnum_minus _ NaN = NaN"
| "jsnum_minus (Fin a) (Fin b) = Fin (a - b)"
| "jsnum_minus (Fin a) PosInf = NegInf"
| "jsnum_minus (Fin a) NegInf = PosInf"
| "jsnum_minus PosInf (Fin b) = PosInf"
| "jsnum_minus PosInf NegInf = PosInf"
| "jsnum_minus PosInf PosInf = NaN"
| "jsnum_minus NegInf (Fin b) = NegInf"
| "jsnum_minus NegInf PosInf = NegInf"
| "jsnum_minus NegInf NegInf = NaN"

fun strictNotEqual :: "jsnum \<Rightarrow> jsnum \<Rightarrow> bool" where
  "strictNotEqual NaN _ = True"
| "strictNotEqual _ NaN = True"
| "strictNotEqual a b = (a \<noteq> b)"

text \<open>
  How \<open>Array.prototype.sort\<close> reads the number a comparator returns: a negative value
  puts the first argument first, a positive one the second, zero and NaN leave the
  pair as it is.
\<close>

fun signOf :: "jsnum \<Rightarrow> int" where
  "signOf (Fin k) = sgn k"
| "signOf PosInf = 1"
| "signOf NegInf = - 1"
| "signOf NaN = 0"

definition sortsBefore :: "jsnum \<Rightarrow> bool" where
  "sortsBefore r \<longleftrightarrow> signOf r < 0"

fun jsnum_less :: "jsnum \<Rightarrow> jsnum \<Rightarrow> bool" where
  "jsnum_less NaN _ = False"
| "jsnum_less _ NaN = False"
| "jsnum_less (Fin a) (Fin b) = (a < b)"
| "jsnum_less (Fin a) PosInf = True"
| "jsnum_less (Fin a) NegInf = False"
| "jsnum_less PosInf _ = False"
| "jsnum_less NegInf (Fin b) = True"
| "jsnum_less NegInf PosInf = True"
| "jsnum_less NegInf NegInf = False"

subsection \<open>String methods\<close>

definition occursAt :: "'a list \<Rightarrow> 'a list \<Rightarrow> nat \<Rightarrow> bool" where
  "occursAt s q k \<longleftrightarrow> k + length q \<le> length s \<and> take (length q) (drop k s) = q"

text \<open>\<open>s.indexOf(q, pos)\<close>: the start is clamped to the length, the result is -1 or the
  first index from there at which \<open>q\<close> occurs.\<close>

definition indexOf :: "'a list \<Rightarrow> 'a list \<Rightarrow> nat \<Rightarrow> int" where
  "indexOf s q pos =
     (case find (occursAt s q) [min pos (length s)..<Suc (length s)] of
        None \<Rightarrow> - 1
      | Some k \<Rightarrow> int k)"

definition lastIndexOf :: "'a list \<Rightarrow> 'a list \<Rightarrow> int" where
  "lastIndexOf s q =
     (case find (occursAt s q) (rev [0..<Suc (length s)]) of
        None \<Rightarrow> - 1
      | Some k \<Rightarrow> int k)"

definition includes' :: "'a list \<Rightarrow> 'a list \<Rightarrow> bool" where
  "includes' s q \<longleftrightarrow> indexOf s q 0 \<noteq> - 1"

definition startsWith :: "'a list \<Rightarrow> 'a list \<Rightarrow> bool" where
  "startsWith s q \<longleftrightarrow> length q \<le> length s \<and> take (length q) s = q"

definition endsWith :: "'a list \<Rightarrow> 'a list \<Rightarrow> bool" where
  "endsWith s q \<longleftrightarrow> length q \<le> length s \<and> drop (length s - length q) s = q"

text \<open>\<open>s.substring(a, b)\<close> clamps both arguments to the length and swaps them when
  \<open>a > b\<close>; \<open>s.substring(a)\<close> runs to the end.\<close>

definition substring :: "'a list \<Rightarrow> nat \<Rightarrow> nat \<Rightarrow> 'a list" where
  "substring s a b =
     (let a' = min a (length s);
          b' = min b (length s);
          lo = min a' b';
          hi = max a' b'
      in take (hi - lo) (drop lo s))"

definition substringFrom :: "'a list \<Rightarrow> nat \<Rightarrow> 'a list" where
  "substringFrom s a = drop (min a (length s)) s"

text \<open>The code units \<open>trim\<close> removes: ECMAScript's WhiteSpace and LineTerminator.\<close>

definition isWhiteSpace :: "code_unit \<Rightarrow> bool" where
  "isWhiteSpace c \<longleftrightarrow>
     c \<in> {0x9, 0xA, 0xB, 0xC, 0xD, 0x20, 0xA0, 0x1680, 0x2028, 0x2029, 0x202F, 0x205F,
          0x3000, 0xFEFF}
     \<or> (0x2000 \<le> c \<and> c \<le> 0x200A)"

definition trim :: "jsstring \<Rightarrow> jsstring" where
  "trim s = rev (dropWhile isWhiteSpace (rev (dropWhile isWhiteSpace s)))"

text \<open>\<open>s.split(c)\<close> for a separator of one code unit.\<close>

fun split :: "'a list \<Rightarrow> 'a \<Rightarrow> 'a list list" where
  "split [] c = [[]]"
| "split (x # xs) c =
     (if x = c then [] # split xs c
      else (case split xs c of
              [] \<Rightarrow> [[x]]
            | p # ps \<Rightarrow> (x # p) # ps))"

text \<open>
  \<open>String.prototype.toLowerCase\<close> and \<open>localeCompare\<close> belong to the platform; the
  functions below take them as the parameters \<open>toLowerCase\<close> and \<open>localeCompare\<close>.
  \<open>toLowerCase_latin\<close> is \<open>toLowerCase\<close> on strings of Basic Latin and U+0130 (LATIN
  CAPITAL LETTER I WITH DOT ABOVE, whose lower case is the two code units U+0069 U+0307);
  \<open>compareUnits\<close> orders strings by their code units. Both serve as concrete instances.
\<close>

definition lowerUnit :: "code_unit \<Rightarrow> jsstring" where
  "lowerUnit c =
     (if c = 0x130 then [0x69, 0x307]
      else if 0x41 \<le> c \<and> c \<le> 0x5A then [c + 0x20]
      else [c])"

definition toLowerCase_latin :: "jsstring \<Rightarrow> jsstring" where
  "toLowerCase_latin s = concat (map lowerUnit s)"

fun compareUnits :: "jsstring \<Rightarrow> jsstring \<Rightarrow> int" where
  "compareUnits [] [] = 0"
| "compareUnits [] (y # ys) = - 1"
| "compareUnits (x # xs) [] = 1"
| "compareUnits (x # xs) (y # ys) =
     (if x < y then - 1 else if y < x then 1 else compareUnits xs ys)"

section \<open>FileSearchViewProvider\<close>

subsection \<open>\<open>_editDistance\<close>\<close>

text \<open>
  The table \<open>dp\<close> is an array of \<open>m + 1\<close> rows of \<open>n + 1\<close> numbers; \<open>setCell dp i j v\<close> is
  the assignment \<open>dp[i][j] = v\<close>. The three loops are folds over their index ranges.
\<close>

definition setCell :: "nat list list \<Rightarrow> nat \<Rightarrow> nat \<Rightarrow> nat \<Rightarrow> nat list list" where
  "setCell dp i j v = dp[i := (dp ! i)[j := v]]"

definition fillCell :: "'a list \<Rightarrow> 'a list \<Rightarrow> nat \<Rightarrow> nat \<Rightarrow> nat list list \<Rightarrow> nat list list" where
  "fillCell s1 s2 i j dp =
     (if s1 ! (i - 1) = s2 ! (j - 1)
      then setCell dp i j (dp ! (i - 1) ! (j - 1))
      else setCell dp i j
             (Min {dp ! (i - 1) ! j + 1, dp ! i ! (j - 1) + 1, dp ! (i - 1) ! (j - 1) + 1}))"

definition editDistance :: "'a list \<Rightarrow> 'a list \<Rightarrow> nat" where
  "editDistance s1 s2 =
     (let m = length s1;
          n = length s2;
          dp0 = replicate (m + 1) (replicate (n + 1) 0);
          dp1 = fold (\<lambda>i dp. setCell dp i 0 i) [0..<m + 1] dp0;
          dp2 = fold (\<lambda>j dp. setCell dp 0 j j) [0..<n + 1] dp1;
          dp3 = fold (\<lambda>i dp. fold (\<lambda>j dp. fillCell s1 s2 i j dp) [1..<n + 1] dp)
                  [1..<m + 1] dp2
      in dp3 ! m ! n)"

subsection \<open>\<open>_getBasename\<close> and \<open>_calculateRank\<close>\<close>

definition getBasename :: "jsstring \<Rightarrow> jsstring" where
  "getBasename filename =
     (let lastDot = lastIndexOf filename (js ''.'')
      in if lastDot > 0 then substring filename 0 (nat lastDot) else filename)"

record rank =
  tier :: nat
  editDist :: nat
  length' :: nat
  position :: jsnum

definition calculateRank :: "(jsstring \<Rightarrow> jsstring) \<Rightarrow> jsstring \<Rightarrow> jsstring \<Rightarrow> bool \<Rightarrow> rank" where
  "calculateRank toLowerCase filename query caseSensitive =
     (let fn = (if caseSensitive then filename else toLowerCase filename);
          q = (if caseSensitive then query else toLowerCase query);
          basename = getBasename fn;
          queryBasename = getBasename q;
          (tier, position) =
            (if fn = q then (0, 0)
             else if basename = queryBasename \<or> basename = q then (1, 0)
             else if startsWith basename q then (2, 0)
             else if includes' basename q then (3, indexOf basename q 0)
             else if includes' fn q then (4, indexOf fn q 0)
             else (5, indexOf fn q 0));
          editDist = editDistance basename q
      in \<lparr>tier = tier, editDist = editDist, length' = length filename,
          position = (if position \<ge> 0 then Fin position else PosInf)\<rparr>)"

subsection \<open>\<open>_compareFilesByRelevance\<close>\<close>

text \<open>\<open>compareRanks\<close> is the body of the comparator after its two calls of
  \<open>_calculateRank\<close>.\<close>

definition compareRanks ::
  "(jsstring \<Rightarrow> jsstring \<Rightarrow> int) \<Rightarrow> rank \<Rightarrow> rank \<Rightarrow> jsstring \<Rightarrow> jsstring \<Rightarrow> jsnum" where
  "compareRanks localeCompare rankA rankB filenameA filenameB =
     (if tier rankA \<noteq> tier rankB then Fin (int (tier rankA) - int (tier rankB))
      else if editDist rankA \<noteq> editDist rankB
        then Fin (int (editDist rankA) - int (editDist rankB))
      else if length' rankA \<noteq> length' rankB
        then Fin (int (length' rankA) - int (length' rankB))
      else if strictNotEqual (position rankA) (position rankB)
        then jsnum_minus (position rankA) (position rankB)
      else Fin (localeCompare filenameA filenameB))"

definition compareFilesByRelevance ::
  "(jsstring \<Rightarrow> jsstring) \<Rightarrow> (jsstring \<Rightarrow> jsstring \<Rightarrow> int) \<Rightarrow>
   jsstring \<Rightarrow> jsstring \<Rightarrow> jsstring \<Rightarrow> bool \<Rightarrow> jsnum" where
  "compareFilesByRelevance toLowerCase localeCompare filenameA filenameB query caseSensitive =
     (let rankA = calculateRank toLowerCase filenameA query caseSensitive;
          rankB = calculateRank toLowerCase filenameB query caseSensitive
      in compareRanks localeCompare rankA rankB filenameA filenameB)"

subsection \<open>\<open>_boldMatchingText\<close>\<close>

record span =
  start :: nat
  end' :: nat

text \<open>The \<open>while\<close> loop that collects every occurrence, overlapping ones included.
  \<open>queryLength\<close> is \<open>query.length\<close>, the length of the query as typed.\<close>

function findPositions :: "'a list \<Rightarrow> 'a list \<Rightarrow> nat \<Rightarrow> nat \<Rightarrow> span list \<Rightarrow> span list" where
  "findPositions fn q queryLength searchPos positions =
     (if searchPos < length fn
      then (let index = indexOf fn q searchPos
            in if index = - 1 then positions
               else findPositions fn q queryLength (nat index + 1)
                      (positions @ [\<lparr>start = nat index, end' = nat index + queryLength\<rparr>]))
      else positions)"
  by pat_completeness auto
termination
proof (relation "measure (\<lambda>(fn, q, queryLength, searchPos, positions). length fn - searchPos)")
  show "wf (measure (\<lambda>(fn, q, queryLength, searchPos, positions). length fn - searchPos))"
    by simp
next
  fix fn q :: "'a list" and queryLength searchPos :: nat and positions :: "span list" and x :: int
  assume a: "searchPos < length fn" "x = indexOf fn q searchPos" "x \<noteq> - 1"
  then obtain k where k: "find (occursAt fn q) [min searchPos (length fn)..<Suc (length fn)] = Some k"
    and x: "x = int k"
    by (auto simp: indexOf_def split: option.splits)
  from k have "k \<in> set [min searchPos (length fn)..<Suc (length fn)]"
    by (metis find_Some_iff nth_mem)
  then have "int searchPos \<le> x"
    using a(1) x by (simp del: upt_Suc)
  with \<open>searchPos < length fn\<close>
  show "((fn, q, queryLength, nat x + 1,
          positions @ [\<lparr>start = nat x, end' = nat x + queryLength\<rparr>]),
         (fn, q, queryLength, searchPos, positions))
        \<in> measure (\<lambda>(fn, q, queryLength, searchPos, positions). length fn - searchPos)"
    by simp
qed

declare findPositions.simps [simp del]

text \<open>The loop that merges a position into the last merged one unless it starts
  strictly after its end. The objects pushed onto \<open>merged\<close> are those of \<open>positions\<close>;
  the assignment to \<open>end\<close> changes one that the loop has already passed, so the model
  keeps the two arrays as two lists.\<close>

definition mergeStep :: "span \<Rightarrow> span list \<Rightarrow> span list" where
  "mergeStep pos merged =
     (if merged = [] \<or> start pos > end' (last merged) then merged @ [pos]
      else butlast merged @ [(last merged)\<lparr>end' := max (end' (last merged)) (end' pos)\<rparr>])"

definition mergePositions :: "span list \<Rightarrow> span list" where
  "mergePositions positions = fold mergeStep positions []"

definition matchPositions ::
  "(jsstring \<Rightarrow> jsstring) \<Rightarrow> jsstring \<Rightarrow> jsstring \<Rightarrow> bool \<Rightarrow> span list" where
  "matchPositions toLowerCase filename query caseSensitive =
     (let fn = (if caseSensitive then filename else toLowerCase filename);
          q = (if caseSensitive then query else toLowerCase query)
      in findPositions fn q (length query) 0 [])"

text \<open>The loop that builds the result: the text before each merged span, then the span
  between two bold markers; the state is the pair of \<open>result\<close> and \<open>lastEnd\<close>.\<close>

definition boldStep :: "jsstring \<Rightarrow> span \<Rightarrow> jsstring \<times> nat \<Rightarrow> jsstring \<times> nat" where
  "boldStep filename pos st =
     (case st of (result, lastEnd) \<Rightarrow>
        (result @ substring filename lastEnd (start pos)
           @ js ''**'' @ substring filename (start pos) (end' pos) @ js ''**'',
         end' pos))"

definition boldMatchingText ::
  "(jsstring \<Rightarrow> jsstring) \<Rightarrow> jsstring \<Rightarrow> jsstring \<Rightarrow> bool \<Rightarrow> jsstring" where
  "boldMatchingText toLowerCase filename query caseSensitive =
     (if query = [] then filename
      else
        (let positions = matchPositions toLowerCase filename query caseSensitive
         in if length positions = 0 then filename
            else
              (let merged = mergePositions positions;
                   (result, lastEnd) = fold (boldStep filename) merged ([], 0)
               in result @ substringFrom filename lastEnd)))"

text \<open>
  The same function with the pieces it appends kept apart: each \<open>result +=\<close> of the source is
  one segment, \<open>Literal\<close> for text copied as it is and \<open>Matched\<close> for text put between bold
  markers. \<open>render\<close> writes the segments as the string the source returns.
\<close>

datatype segment = Literal jsstring | Matched jsstring

fun segmentText :: "segment \<Rightarrow> jsstring" where
  "segmentText (Literal t) = t"
| "segmentText (Matched t) = t"

fun renderSegment :: "segment \<Rightarrow> jsstring" where
  "renderSegment (Literal t) = t"
| "renderSegment (Matched t) = js ''**'' @ t @ js ''**''"

definition render :: "segment list \<Rightarrow> jsstring" where
  "render segs = concat (map renderSegment segs)"

definition segmentStep :: "jsstring \<Rightarrow> span \<Rightarrow> segment list \<times> nat \<Rightarrow> segment list \<times> nat" where
  "segmentStep filename pos st =
     (case st of (segs, lastEnd) \<Rightarrow>
        (segs @ [Literal (substring filename lastEnd (start pos)),
                 Matched (substring filename (start pos) (end' pos))],
         end' pos))"

definition highlight ::
  "(jsstring \<Rightarrow> jsstring) \<Rightarrow> jsstring \<Rightarrow> jsstring \<Rightarrow> bool \<Rightarrow> segment list" where
  "highlight toLowerCase filename query caseSensitive =
     (if query = [] then [Literal filename]
      else
        (let positions = matchPositions toLowerCase filename query caseSensitive
         in if length positions = 0 then [Literal filename]
            else
              (let merged = mergePositions positions;
                   (segs, lastEnd) = fold (segmentStep filename) merged ([], 0)
               in segs @ [Literal (substringFrom filename lastEnd)])))"

subsection \<open>The \<open>search\<close> message\<close>

text \<open>
  A file of the workspace, as far as the handler reads it: \<open>file.toString()\<close>,
  \<open>path.basename(file.fsPath)\<close> and \<open>asRelativePath(file)\<close>.
\<close>

record 'u workspace_file =
  fileUri :: 'u
  fileBasename :: jsstring
  fileRelativePath :: jsstring

record 'u result =
  uri :: 'u
  label :: jsstring
  description :: jsstring
  boldedLabel :: jsstring

datatype jserror = SyntaxError

text \<open>
  The callback of \<open>allFiles.filter\<close>. The regular expression engine is the pair of
  parameters \<open>newRegExp\<close> (the constructor, which throws a SyntaxError on a pattern
  that does not parse) and \<open>test\<close>. The \<open>catch\<close> clause turns the exception into the
  answer \<open>false\<close>.
\<close>

definition matchesQuery ::
  "(jsstring \<Rightarrow> jsstring \<Rightarrow> jserror + 'r) \<Rightarrow> ('r \<Rightarrow> jsstring \<Rightarrow> bool) \<Rightarrow> (jsstring \<Rightarrow> jsstring) \<Rightarrow>
   jsstring \<Rightarrow> bool \<Rightarrow> bool \<Rightarrow> jsstring \<Rightarrow> jserror + bool" where
  "matchesQuery newRegExp test toLowerCase value caseSensitive useRegex fileName =
     (if useRegex then
        (case newRegExp value (if caseSensitive then [] else js ''i'') of
           Inr regex \<Rightarrow> Inr (test regex fileName)
         | Inl e \<Rightarrow> Inr False)
      else if caseSensitive then Inr (includes' fileName value)
      else Inr (includes' (toLowerCase fileName) (toLowerCase value)))"

text \<open>\<open>Array.prototype.filter\<close> with a callback that may throw: the first exception
  ends the call.\<close>

fun filterE :: "('a \<Rightarrow> jserror + bool) \<Rightarrow> 'a list \<Rightarrow> jserror + 'a list" where
  "filterE p [] = Inr []"
| "filterE p (x # xs) =
     (case p x of
        Inl e \<Rightarrow> Inl e
      | Inr b \<Rightarrow>
          (case filterE p xs of
             Inl e \<Rightarrow> Inl e
           | Inr ys \<Rightarrow> Inr (if b then x # ys else ys)))"

text \<open>\<open>Array.prototype.sort\<close> is stable; a stable insertion sort stands for it.\<close>

fun insertSorted :: "('a \<Rightarrow> 'a \<Rightarrow> jsnum) \<Rightarrow> 'a \<Rightarrow> 'a list \<Rightarrow> 'a list" where
  "insertSorted cmp x [] = [x]"
| "insertSorted cmp x (y # ys) =
     (if sortsBefore (cmp x y) then x # y # ys else y # insertSorted cmp x ys)"

definition arraySort :: "('a \<Rightarrow> 'a \<Rightarrow> jsnum) \<Rightarrow> 'a list \<Rightarrow> 'a list" where
  "arraySort cmp xs = foldl (\<lambda>sorted x. insertSorted cmp x sorted) [] xs"

datatype 'u posted = Results "'u result list"

text \<open>The callback of \<open>map\<close>: the entry shown for a file.\<close>

definition toResult ::
  "(jsstring \<Rightarrow> jsstring) \<Rightarrow> jsstring \<Rightarrow> bool \<Rightarrow> 'u workspace_file \<Rightarrow> 'u result" where
  "toResult toLowerCase value caseSensitive file =
     \<lparr>uri = fileUri file, label = fileBasename file, description = fileRelativePath file,
      boldedLabel = boldMatchingText toLowerCase (fileBasename file) value caseSensitive\<rparr>"

definition onSearch ::
  "(jsstring \<Rightarrow> jsstring \<Rightarrow> jserror + 'r) \<Rightarrow> ('r \<Rightarrow> jsstring \<Rightarrow> bool) \<Rightarrow> (jsstring \<Rightarrow> jsstring) \<Rightarrow>
   (jsstring \<Rightarrow> jsstring \<Rightarrow> int) \<Rightarrow> jsstring \<Rightarrow> bool \<Rightarrow> bool \<Rightarrow> 'u workspace_file list \<Rightarrow>
   jserror + 'u posted" where
  "onSearch newRegExp test toLowerCase localeCompare value caseSensitive useRegex allFiles =
     (if value = [] then Inr (Results [])
      else
        (case filterE (\<lambda>file. matchesQuery newRegExp test toLowerCase value caseSensitive
                                 useRegex (fileBasename file)) allFiles of
           Inl e \<Rightarrow> Inl e
         | Inr found \<Rightarrow>
             Inr (Results
               (arraySort
                  (\<lambda>a b. compareFilesByRelevance toLowerCase localeCompare (label a) (label b)
                            value caseSensitive)
                  (map (toResult toLowerCase value caseSensitive) found)))))"

section \<open>The webview script: \<open>applyFilter\<close>\<close>

record 'u view_state =
  results :: "'u result list"
  allResults :: "'u result list"
  selectedIndex :: int

text \<open>\<open>displayResults\<close> without the DOM: what it assigns to the script's variables.\<close>

definition displayResults :: "'u result list \<Rightarrow> 'u view_state \<Rightarrow> 'u view_state" where
  "displayResults resultsList st =
     (if length resultsList = 0 then st\<lparr>results := [], selectedIndex := - 1\<rparr>
      else st\<lparr>results := resultsList\<rparr>)"

definition normalizedSuffix :: "jsstring \<Rightarrow> jsstring" where
  "normalizedSuffix sfx = (if startsWith sfx (js ''.'') then sfx else js ''.'' @ sfx)"

definition applyFilter :: "(jsstring \<Rightarrow> jsstring) \<Rightarrow> jsstring \<Rightarrow> 'u view_state \<Rightarrow> 'u view_state" where
  "applyFilter toLowerCase filterInputValue st =
     (let filterValue = trim filterInputValue
      in if filterValue = [] then displayResults (allResults st) (st\<lparr>results := allResults st\<rparr>)
         else
           (let suffixes = filter (\<lambda>s. s \<noteq> [])
                             (map (\<lambda>s. toLowerCase (trim s)) (split filterValue 0x2C))
            in if length suffixes = 0
               then displayResults (allResults st) (st\<lparr>results := allResults st\<rparr>)
               else
                 (let kept = filter (\<lambda>file.
                                 (let fileName = toLowerCase (label file)
                                  in list_ex (\<lambda>sfx. endsWith fileName (normalizedSuffix sfx))
                                       suffixes))
                               (allResults st)
                  in displayResults kept (st\<lparr>results := kept\<rparr>))))"

section \<open>The notions the specification uses\<close>

text \<open>
  One edit of a string: the insertion, the deletion or the substitution of a single
  character, anywhere. The Levenshtein distance is the least number of edits that
  turn one string into the other.
\<close>

inductive edit1 :: "'a list \<Rightarrow> 'a list \<Rightarrow> bool" where
  insertion: "edit1 (u @ v) (u @ a # v)"
| deletion: "edit1 (u @ a # v) (u @ v)"
| substitution: "edit1 (u @ a # v) (u @ b # v)"

definition levenshtein :: "'a list \<Rightarrow> 'a list \<Rightarrow> nat" where
  "levenshtein xs ys = (LEAST n. (edit1 ^^ n) xs ys)"

text \<open>The normalization of step 1: lower case unless the search is case-sensitive.\<close>

definition normalized :: "(jsstring \<Rightarrow> jsstring) \<Rightarrow> bool \<Rightarrow> jsstring \<Rightarrow> jsstring" where
  "normalized toLowerCase caseSensitive s = (if caseSensitive then s else toLowerCase s)"

text \<open>\<open>occurs q s k\<close>: the string \<open>q\<close> occurs in \<open>s\<close> at index \<open>k\<close>; \<open>firstOccurrence\<close>: and at
  no smaller index.\<close>

definition occurs :: "'a list \<Rightarrow> 'a list \<Rightarrow> nat \<Rightarrow> bool" where
  "occurs q s k \<longleftrightarrow> (\<exists>u v. s = u @ q @ v \<and> length u = k)"

definition firstOccurrence :: "'a list \<Rightarrow> 'a list \<Rightarrow> nat \<Rightarrow> bool" where
  "firstOccurrence q s k \<longleftrightarrow> occurs q s k \<and> (\<forall>j<k. \<not> occurs q s j)"

text \<open>The recurrence that computes the distance, and the table of \<open>_editDistance\<close>:
  \<open>table\<close> is its shape, \<open>prefixDistance\<close> what a cell should hold.\<close>

fun lev :: "'a list \<Rightarrow> 'a list \<Rightarrow> nat" where
  "lev [] ys = length ys"
| "lev (x # xs) [] = Suc (length xs)"
| "lev (x # xs) (y # ys) =
     (if x = y then lev xs ys
      else Suc (min (lev xs (y # ys)) (min (lev (x # xs) ys) (lev xs ys))))"

definition table :: "nat \<Rightarrow> nat \<Rightarrow> nat list list \<Rightarrow> bool" where
  "table m n dp \<longleftrightarrow> length dp = Suc m \<and> (\<forall>r\<le>m. length (dp ! r) = Suc n)"

definition prefixDistance :: "'a list \<Rightarrow> 'a list \<Rightarrow> nat \<Rightarrow> nat \<Rightarrow> nat" where
  "prefixDistance s1 s2 i j = lev (take i s1) (take j s2)"

text \<open>\<open>filled s1 s2 i j dp\<close>: row 0, column 0, the rows before \<open>i\<close> and row \<open>i\<close> before
  column \<open>j\<close> hold the distances of the prefixes.\<close>

definition filled :: "'a list \<Rightarrow> 'a list \<Rightarrow> nat \<Rightarrow> nat \<Rightarrow> nat list list \<Rightarrow> bool" where
  "filled s1 s2 i j dp \<longleftrightarrow>
     table (length s1) (length s2) dp \<and>
     (\<forall>r c. r \<le> length s1 \<longrightarrow> c \<le> length s2 \<longrightarrow>
        (r < i \<or> (r = i \<and> c < j) \<or> c = 0 \<or> r = 0) \<longrightarrow>
        dp ! r ! c = prefixDistance s1 s2 r c)"

text \<open>The sort key of the specification: the tuple of tier, edit distance, name length,
  match position and name, compared lexicographically; the names by \<open>localeCompare\<close>.\<close>

definition rankKeyLess ::
  "(jsstring \<Rightarrow> jsstring \<Rightarrow> int) \<Rightarrow> rank \<times> jsstring \<Rightarrow> rank \<times> jsstring \<Rightarrow> bool" where
  "rankKeyLess localeCompare keyA keyB =
     (case keyA of (rA, nameA) \<Rightarrow> case keyB of (rB, nameB) \<Rightarrow>
        tier rA < tier rB \<or>
        tier rA = tier rB \<and>
          (editDist rA < editDist rB \<or>
           editDist rA = editDist rB \<and>
             (length' rA < length' rB \<or>
              length' rA = length' rB \<and>
                (jsnum_less (position rA) (position rB) \<or>
                 position rA = position rB \<and> localeCompare nameA nameB < 0))))"

text \<open>A match position is a non-negative integer or, when absent, infinity.\<close>

definition isPosition :: "jsnum \<Rightarrow> bool" where
  "isPosition p \<longleftrightarrow> p = PosInf \<or> (\<exists>k. p = Fin (int k))"

text \<open>
  The key the results are sorted by, as a tuple under the lexicographic order:
  \<open>positionKey\<close> puts an absent position after every concrete one, and \<open>collate\<close>
  gives the place of a name in the alphabetical order. \<open>collation localeCompare collate\<close>:
  \<open>localeCompare\<close> compares two names as \<open>collate\<close> orders them, which is what a
  consistent comparison function does.
\<close>

definition positionKey :: "jsnum \<Rightarrow> nat \<times> nat" where
  "positionKey p = (case p of Fin k \<Rightarrow> (0, nat k) | _ \<Rightarrow> (1, 0))"

definition sortKey ::
  "(jsstring \<Rightarrow> jsstring) \<Rightarrow> (jsstring \<Rightarrow> 'k) \<Rightarrow> jsstring \<Rightarrow> bool \<Rightarrow> jsstring \<Rightarrow>
   nat \<times> nat \<times> nat \<times> (nat \<times> nat) \<times> 'k" where
  "sortKey toLowerCase collate query caseSensitive name =
     (let r = calculateRank toLowerCase name query caseSensitive
      in (tier r, editDist r, length' r, positionKey (position r), collate name))"

definition collation :: "(jsstring \<Rightarrow> jsstring \<Rightarrow> int) \<Rightarrow> (jsstring \<Rightarrow> 'k::linorder) \<Rightarrow> bool" where
  "collation localeCompare collate \<longleftrightarrow>
     (\<forall>a b. (localeCompare a b < 0 \<longleftrightarrow> collate a < collate b)
          \<and> (0 < localeCompare a b \<longleftrightarrow> collate b < collate a))"

text \<open>The span the \<open>while\<close> loop records for an occurrence at index \<open>k\<close>.\<close>

definition mkSpan :: "nat \<Rightarrow> nat \<Rightarrow> span" where
  "mkSpan queryLength k = \<lparr>start = k, end' = k + queryLength\<rparr>"

text \<open>\<open>separated\<close>: each span starts strictly after the end of the one before it, so
  two spans neither overlap nor touch. \<open>covered ms p\<close>: the span \<open>p\<close> lies inside a span
  of \<open>ms\<close>.\<close>

fun separated :: "span list \<Rightarrow> bool" where
  "separated [] = True"
| "separated [a] = True"
| "separated (a # b # ms) = (end' a < start b \<and> separated (b # ms))"

definition covered :: "span list \<Rightarrow> span \<Rightarrow> bool" where
  "covered ms p \<longleftrightarrow> list_ex (\<lambda>m. start m \<le> start p \<and> end' p \<le> end' m) ms"

definition texts :: "segment list \<Rightarrow> jsstring" where
  "texts segs = concat (map segmentText segs)"

fun matchedTexts :: "segment list \<Rightarrow> jsstring list" where
  "matchedTexts [] = []"
| "matchedTexts (Literal t # segs) = matchedTexts segs"
| "matchedTexts (Matched t # segs) = t # matchedTexts segs"

text \<open>\<open>chain a ms\<close>: the spans of \<open>ms\<close> follow each other from \<open>a\<close> on, none reversed.\<close>

fun chain :: "nat \<Rightarrow> span list \<Rightarrow> bool" where
  "chain a [] = True"
| "chain a (m # ms) = (a \<le> start m \<and> start m \<le> end' m \<and> chain (end' m) ms)"

text \<open>\<open>madeOfOccurrences q t\<close>: every character of \<open>t\<close> lies in an occurrence of \<open>q\<close> in \<open>t\<close>.
  \<open>unionOf R m\<close>: the span \<open>m\<close> is not empty and is covered by spans of \<open>R\<close> inside it.\<close>

definition madeOfOccurrences :: "'a list \<Rightarrow> 'a list \<Rightarrow> bool" where
  "madeOfOccurrences q t \<longleftrightarrow> (\<forall>i<length t. \<exists>k. k \<le> i \<and> i < k + length q \<and> occurs q t k)"

definition unionOf :: "span set \<Rightarrow> span \<Rightarrow> bool" where
  "unionOf R m \<longleftrightarrow>
     start m < end' m \<and>
     (\<forall>i. start m \<le> i \<and> i < end' m \<longrightarrow>
        (\<exists>p\<in>R. start m \<le> start p \<and> start p \<le> i \<and> i < end' p \<and> end' p \<le> end' m))"

text \<open>The suffixes of the filter text: its comma-separated parts, trimmed and lower-cased,
  the empty ones left out; \<open>withDot\<close> puts a dot before a suffix that has none.\<close>

definition suffixesOf :: "(jsstring \<Rightarrow> jsstring) \<Rightarrow> jsstring \<Rightarrow> jsstring list" where
  "suffixesOf toLowerCase filterText =
     filter (\<lambda>s. s \<noteq> []) (map (\<lambda>s. toLowerCase (trim s)) (split (trim filterText) 0x2C))"

definition withDot :: "jsstring \<Rightarrow> jsstring" where
  "withDot s = (if prefix (js ''.'') s then s else js ''.'' @ s)"

section \<open>What the string methods compute\<close>

lemma occursAt_occurs: "occursAt s q k \<longleftrightarrow> occurs q s k"
proof
  assume a: "occursAt s q k"
  then have "s = take k s @ q @ drop (k + length q) s"
    by (metis append_take_drop_id occursAt_def add.commute drop_drop)
  moreover have "length (take k s) = k" using a by (simp add: occursAt_def)
  ultimately show "occurs q s k" unfolding occurs_def by blast
next
  assume "occurs q s k"
  then obtain u v where "s = u @ q @ v" "length u = k" unfolding occurs_def by blast
  then show "occursAt s q k" by (simp add: occursAt_def)
qed

lemma occurs_sublist: "(\<exists>k. occurs q s k) \<longleftrightarrow> sublist q s"
  unfolding occurs_def sublist_def by auto

lemma occursAt_bound: "occursAt s q k \<Longrightarrow> k < Suc (length s)"
  by (simp add: occursAt_def)

lemma find_upt_None: "find P [a..<b] = None \<longleftrightarrow> (\<forall>k. a \<le> k \<and> k < b \<longrightarrow> \<not> P k)"
  by (auto simp: find_None_iff)

lemma find_upt_Some:
  "find P [a..<b] = Some k \<longleftrightarrow> a \<le> k \<and> k < b \<and> P k \<and> (\<forall>j. a \<le> j \<and> j < k \<longrightarrow> \<not> P j)"
proof
  assume "find P [a..<b] = Some k"
  then obtain i where i: "i < length [a..<b]" "P ([a..<b] ! i)" "k = [a..<b] ! i"
    "\<forall>j<i. \<not> P ([a..<b] ! j)"
    unfolding find_Some_iff by blast
  then have k: "k = a + i" "a + i < b" by auto
  have "\<not> P j" if "a \<le> j" "j < k" for j
  proof -
    from that k have "j - a < i" "a + (j - a) < b" by auto
    with i(4) have "\<not> P ([a..<b] ! (j - a))" by blast
    then show ?thesis using that k by simp
  qed
  with i k show "a \<le> k \<and> k < b \<and> P k \<and> (\<forall>j. a \<le> j \<and> j < k \<longrightarrow> \<not> P j)" by auto
next
  assume r: "a \<le> k \<and> k < b \<and> P k \<and> (\<forall>j. a \<le> j \<and> j < k \<longrightarrow> \<not> P j)"
  then have "k - a < length [a..<b]" "[a..<b] ! (k - a) = k" by auto
  moreover have "\<forall>j<k - a. \<not> P ([a..<b] ! j)" using r by auto
  ultimately show "find P [a..<b] = Some k"
    unfolding find_Some_iff using r by (intro exI [of _ "k - a"]) auto
qed

lemma indexOf_none:
  "indexOf s q pos = - 1 \<longleftrightarrow> (\<forall>k\<ge>min pos (length s). \<not> occurs q s k)"
proof -
  have "indexOf s q pos = - 1 \<longleftrightarrow>
        find (occursAt s q) [min pos (length s)..<Suc (length s)] = None"
    by (simp add: indexOf_def split: option.splits)
  also have "\<dots> \<longleftrightarrow> (\<forall>k. min pos (length s) \<le> k \<and> k < Suc (length s) \<longrightarrow> \<not> occursAt s q k)"
    by (rule find_upt_None)
  also have "\<dots> \<longleftrightarrow> (\<forall>k\<ge>min pos (length s). \<not> occursAt s q k)"
    using occursAt_bound [of s q] by blast
  finally show ?thesis by (simp add: occursAt_occurs)
qed

lemma indexOf_some:
  "indexOf s q pos = int k \<longleftrightarrow>
     min pos (length s) \<le> k \<and> occurs q s k \<and> (\<forall>j. min pos (length s) \<le> j \<and> j < k \<longrightarrow> \<not> occurs q s j)"
proof -
  have "indexOf s q pos = int k \<longleftrightarrow>
        find (occursAt s q) [min pos (length s)..<Suc (length s)] = Some k"
    by (simp add: indexOf_def split: option.splits)
  also have "\<dots> \<longleftrightarrow> min pos (length s) \<le> k \<and> k < Suc (length s) \<and> occursAt s q k \<and>
      (\<forall>j. min pos (length s) \<le> j \<and> j < k \<longrightarrow> \<not> occursAt s q j)"
    by (rule find_upt_Some)
  also have "\<dots> \<longleftrightarrow> min pos (length s) \<le> k \<and> occursAt s q k \<and>
      (\<forall>j. min pos (length s) \<le> j \<and> j < k \<longrightarrow> \<not> occursAt s q j)"
    using occursAt_bound [of s q k] by blast
  finally show ?thesis by (simp add: occursAt_occurs)
qed

lemma indexOf_cases: "indexOf s q pos = - 1 \<or> (\<exists>k. indexOf s q pos = int k)"
  by (simp add: indexOf_def del: upt_Suc split: option.splits)

lemma indexOf_0_first: "indexOf s q 0 = int k \<longleftrightarrow> firstOccurrence q s k"
  by (simp add: indexOf_some firstOccurrence_def)

lemma includes_sublist: "includes' s q \<longleftrightarrow> sublist q s"
  by (simp add: includes'_def indexOf_none flip: occurs_sublist)

lemma startsWith_prefix: "startsWith s q \<longleftrightarrow> prefix q s"
  by (auto simp: startsWith_def prefix_def) (metis append_eq_conv_conj)

lemma endsWith_suffix: "endsWith s q \<longleftrightarrow> suffix q s"
  by (auto simp: endsWith_def suffix_def) (metis append_take_drop_id)

section \<open>The edit distance\<close>

subsection \<open>The recurrence of the Levenshtein distance\<close>

lemma lev_Nil2 [simp]: "lev xs [] = length xs"
  by (cases xs) simp_all

lemma lev_same [simp]: "lev xs xs = 0"
  by (induction xs) simp_all

lemma lev_one_more:
  "lev (a # xs) ys \<le> Suc (lev xs ys) \<and> lev xs (b # ys) \<le> Suc (lev xs ys)
   \<and> lev xs ys \<le> Suc (lev (a # xs) ys) \<and> lev xs ys \<le> Suc (lev xs (b # ys))"
proof (induction "length xs + length ys" arbitrary: xs ys a b rule: less_induct)
  case less
  have A1: "lev (a # xs) ys \<le> Suc (lev xs ys)"
  proof (cases ys)
    case Nil
    then show ?thesis by simp
  next
    case (Cons y ys')
    have "lev xs ys' \<le> Suc (lev xs (y # ys'))"
      using less [of xs ys'] Cons by simp
    with Cons show ?thesis by (auto simp: min_def)
  qed
  have A2: "lev xs (b # ys) \<le> Suc (lev xs ys)"
  proof (cases xs)
    case Nil
    then show ?thesis by simp
  next
    case (Cons x xs')
    have "lev xs' ys \<le> Suc (lev (x # xs') ys)"
      using less [of xs' ys] Cons by simp
    with Cons show ?thesis by (auto simp: min_def)
  qed
  have B1: "lev xs ys \<le> Suc (lev (a # xs) ys)"
  proof (cases ys)
    case Nil
    then show ?thesis by simp
  next
    case (Cons y ys')
    have s1: "lev xs (y # ys') \<le> Suc (lev xs ys')"
      using less [of xs ys'] Cons by simp
    have s2: "lev xs ys' \<le> Suc (lev (a # xs) ys')"
      using less [of xs ys'] Cons by simp
    from s1 s2 Cons show ?thesis by (auto simp: min_def)
  qed
  have B2: "lev xs ys \<le> Suc (lev xs (b # ys))"
  proof (cases xs)
    case Nil
    then show ?thesis by simp
  next
    case (Cons x xs')
    have s1: "lev (x # xs') ys \<le> Suc (lev xs' ys)"
      using less [of xs' ys] Cons by simp
    have s2: "lev xs' ys \<le> Suc (lev xs' (b # ys))"
      using less [of xs' ys] Cons by simp
    from s1 s2 Cons show ?thesis by (auto simp: min_def)
  qed
  from A1 A2 B1 B2 show ?case by simp
qed

lemma lev_cons2: "lev xs (b # ys) \<le> Suc (lev xs ys)"
  using lev_one_more [of _ xs ys b] by simp

lemma lev_uncons1: "lev xs ys \<le> Suc (lev (a # xs) ys)"
  using lev_one_more [of a xs ys] by simp

lemma lev_uncons2: "lev xs ys \<le> Suc (lev xs (b # ys))"
  using lev_one_more [of _ xs ys b] by simp

lemma lev_subst_head: "lev xs (b # v) \<le> Suc (lev xs (a # v))"
proof (induction xs)
  case Nil
  then show ?case by simp
next
  case (Cons x xs)
  have d1: "lev xs v \<le> Suc (lev xs (a # v))" by (rule lev_uncons2)
  have d2: "lev xs v \<le> Suc (lev (x # xs) v)" by (rule lev_uncons1)
  from Cons d1 d2 show ?case by (auto simp: min_def)
qed

lemma lev_under_cons:
  assumes "\<And>xs. lev xs zs \<le> Suc (lev xs ys)"
  shows "lev xs (c # zs) \<le> Suc (lev xs (c # ys))"
proof (induction xs)
  case Nil
  from assms [of "[]"] show ?case by simp
next
  case (Cons x xs)
  from Cons assms [of xs] assms [of "x # xs"] show ?case by (auto simp: min_def)
qed

lemma lev_under_prefix:
  assumes "\<And>xs. lev xs zs \<le> Suc (lev xs ys)"
  shows "lev xs (u @ zs) \<le> Suc (lev xs (u @ ys))"
proof (induction u arbitrary: xs)
  case Nil
  then show ?case using assms by simp
next
  case (Cons c u)
  show ?case using lev_under_cons [of "u @ zs" "u @ ys" xs c] Cons by simp
qed

text \<open>One edit of the target changes the recurrence's value by at most one.\<close>

lemma lev_edit1: "edit1 ys zs \<Longrightarrow> lev xs zs \<le> Suc (lev xs ys)"
proof (induction rule: edit1.induct)
  case (insertion u v a)
  show ?case by (rule lev_under_prefix) (rule lev_cons2)
next
  case (deletion u a v)
  show ?case by (rule lev_under_prefix) (rule lev_uncons2)
next
  case (substitution u a v b)
  show ?case by (rule lev_under_prefix) (rule lev_subst_head)
qed

lemma lev_lower: "(edit1 ^^ n) xs ys \<Longrightarrow> lev xs ys \<le> n"
proof (induction n arbitrary: ys)
  case 0
  then show ?case by simp
next
  case (Suc n)
  then obtain z where z: "(edit1 ^^ n) xs z" "edit1 z ys" by auto
  from Suc.IH [OF z(1)] lev_edit1 [OF z(2), of xs] show ?case by simp
qed

lemma edit1_Cons: "edit1 xs ys \<Longrightarrow> edit1 (c # xs) (c # ys)"
proof (induction rule: edit1.induct)
  case (insertion u v a)
  show ?case using edit1.insertion [of "c # u" v a] by simp
next
  case (deletion u a v)
  show ?case using edit1.deletion [of "c # u" a v] by simp
next
  case (substitution u a v b)
  show ?case using edit1.substitution [of "c # u" a v b] by simp
qed

lemma edits_Cons: "(edit1 ^^ n) xs ys \<Longrightarrow> (edit1 ^^ n) (c # xs) (c # ys)"
proof (induction n arbitrary: ys)
  case 0
  then show ?case by simp
next
  case (Suc n)
  then obtain z where z: "(edit1 ^^ n) xs z" "edit1 z ys" by auto
  from Suc.IH [OF z(1)] edit1_Cons [OF z(2)] show ?case by auto
qed

lemma edits_insert_all: "(edit1 ^^ length ys) [] ys"
proof (induction ys rule: rev_induct)
  case Nil
  then show ?case by simp
next
  case (snoc y ys)
  have "edit1 ys (ys @ [y])" using edit1.insertion [of ys "[]" y] by simp
  with snoc show ?case by auto
qed

lemma edits_delete_all: "(edit1 ^^ length xs) xs []"
proof (induction xs)
  case Nil
  then show ?case by simp
next
  case (Cons x xs)
  have "edit1 (x # xs) xs" using edit1.deletion [of "[]" x xs] by simp
  then have "(edit1 ^^ Suc (length xs)) (x # xs) []" using Cons by (rule relpowp_Suc_I2)
  then show ?case by simp
qed

text \<open>The recurrence's value is reached by that many edits.\<close>

lemma lev_upper: "(edit1 ^^ lev xs ys) xs ys"
proof (induction "length xs + length ys" arbitrary: xs ys rule: less_induct)
  case less
  show ?case
  proof (cases xs)
    case Nil
    then show ?thesis using edits_insert_all by simp
  next
    case xs: (Cons x xs')
    show ?thesis
    proof (cases ys)
      case Nil
      then show ?thesis using edits_delete_all [of xs] by simp
    next
      case ys: (Cons y ys')
      have i1: "(edit1 ^^ lev xs' (y # ys')) xs' (y # ys')"
        using less [of xs' "y # ys'"] xs ys by simp
      have i2: "(edit1 ^^ lev (x # xs') ys') (x # xs') ys'"
        using less [of "x # xs'" ys'] xs ys by simp
      have i3: "(edit1 ^^ lev xs' ys') xs' ys'"
        using less [of xs' ys'] xs ys by simp
      have del: "edit1 (x # xs') xs'" using edit1.deletion [of "[]" x xs'] by simp
      have ins: "edit1 ys' (y # ys')" using edit1.insertion [of "[]" ys' y] by simp
      have sub: "edit1 (x # xs') (y # xs')" using edit1.substitution [of "[]" x xs' y] by simp
      have p1: "(edit1 ^^ Suc (lev xs' (y # ys'))) (x # xs') (y # ys')"
        using del i1 by (rule relpowp_Suc_I2)
      have p2: "(edit1 ^^ Suc (lev (x # xs') ys')) (x # xs') (y # ys')"
        using i2 ins by (rule relpowp_Suc_I)
      have p3: "(edit1 ^^ Suc (lev xs' ys')) (x # xs') (y # ys')"
        using sub edits_Cons [OF i3, of y] by (rule relpowp_Suc_I2)
      show ?thesis
      proof (cases "x = y")
        case True
        then show ?thesis using edits_Cons [OF i3, of y] xs ys by simp
      next
        case False
        then show ?thesis using p1 p2 p3 xs ys by (simp add: min_def)
      qed
    qed
  qed
qed

lemma levenshtein_lev: "levenshtein xs ys = lev xs ys"
  unfolding levenshtein_def
  by (rule Least_equality) (auto intro: lev_upper lev_lower)

lemma edit1_rev: "edit1 xs ys \<Longrightarrow> edit1 (rev xs) (rev ys)"
proof (induction rule: edit1.induct)
  case (insertion u v a)
  show ?case using edit1.insertion [of "rev v" "rev u" a] by simp
next
  case (deletion u a v)
  show ?case using edit1.deletion [of "rev v" a "rev u"] by simp
next
  case (substitution u a v b)
  show ?case using edit1.substitution [of "rev v" a "rev u" b] by simp
qed

lemma edits_rev: "(edit1 ^^ n) xs ys \<Longrightarrow> (edit1 ^^ n) (rev xs) (rev ys)"
proof (induction n arbitrary: ys)
  case 0
  then show ?case by simp
next
  case (Suc n)
  then obtain z where z: "(edit1 ^^ n) xs z" "edit1 z ys" by auto
  from Suc.IH [OF z(1)] edit1_rev [OF z(2)] show ?case by auto
qed

lemma lev_rev: "lev (rev xs) (rev ys) = lev xs ys"
proof (rule antisym)
  show "lev (rev xs) (rev ys) \<le> lev xs ys"
    by (rule lev_lower) (rule edits_rev, rule lev_upper)
  have "(edit1 ^^ lev (rev xs) (rev ys)) (rev (rev xs)) (rev (rev ys))"
    by (rule edits_rev) (rule lev_upper)
  then show "lev xs ys \<le> lev (rev xs) (rev ys)"
    using lev_lower by fastforce
qed

text \<open>The recurrence read from the end of the strings, as the table of the code
  reads it.\<close>

lemma lev_snoc:
  "lev (xs @ [a]) (ys @ [b]) =
     (if a = b then lev xs ys
      else Suc (min (lev xs (ys @ [b])) (min (lev (xs @ [a]) ys) (lev xs ys))))"
proof -
  have "lev (xs @ [a]) (ys @ [b]) = lev (a # rev xs) (b # rev ys)"
    using lev_rev [of "xs @ [a]" "ys @ [b]"] by simp
  moreover have "lev (rev xs) (b # rev ys) = lev xs (ys @ [b])"
    using lev_rev [of xs "ys @ [b]"] by simp
  moreover have "lev (a # rev xs) (rev ys) = lev (xs @ [a]) ys"
    using lev_rev [of "xs @ [a]" ys] by simp
  ultimately show ?thesis by (simp add: lev_rev)
qed

subsection \<open>The table of \<open>_editDistance\<close>\<close>

lemma table_setCell: "table m n dp \<Longrightarrow> table m n (setCell dp i j v)"
  by (cases "i < length dp") (auto simp: table_def setCell_def nth_list_update)

lemma nth_setCell:
  "table m n dp \<Longrightarrow> i \<le> m \<Longrightarrow> j \<le> n \<Longrightarrow> r \<le> m \<Longrightarrow> c \<le> n \<Longrightarrow>
   setCell dp i j v ! r ! c = (if r = i \<and> c = j then v else dp ! r ! c)"
  by (auto simp: table_def setCell_def nth_list_update)

lemma fold_upt_Suc: "a \<le> b \<Longrightarrow> fold f [a..<Suc b] x = f b (fold f [a..<b] x)"
  by simp

lemma table_replicate: "table m n (replicate (Suc m) (replicate (Suc n) 0))"
  by (simp add: table_def del: replicate_Suc)

lemma first_column:
  "k \<le> Suc m \<Longrightarrow> table m n dp \<Longrightarrow>
   table m n (fold (\<lambda>i dp. setCell dp i 0 i) [0..<k] dp) \<and>
   (\<forall>r<k. fold (\<lambda>i dp. setCell dp i 0 i) [0..<k] dp ! r ! 0 = r)"
proof (induction k)
  case 0
  then show ?case by simp
next
  case (Suc k)
  let ?dp = "fold (\<lambda>i dp. setCell dp i 0 i) [0..<k] dp"
  from Suc have t: "table m n ?dp" and v: "\<forall>r<k. ?dp ! r ! 0 = r" and k: "k \<le> m"
    by simp_all
  have "\<forall>r<Suc k. setCell ?dp k 0 k ! r ! 0 = r"
    using nth_setCell [OF t, of k 0 _ 0 k] k v by auto
  with table_setCell [OF t, of k 0 k] show ?case by simp
qed

lemma first_row:
  "k \<le> Suc n \<Longrightarrow> table m n dp \<Longrightarrow> \<forall>r\<le>m. dp ! r ! 0 = r \<Longrightarrow>
   table m n (fold (\<lambda>j dp. setCell dp 0 j j) [0..<k] dp) \<and>
   (\<forall>r\<le>m. fold (\<lambda>j dp. setCell dp 0 j j) [0..<k] dp ! r ! 0 = r) \<and>
   (\<forall>c<k. fold (\<lambda>j dp. setCell dp 0 j j) [0..<k] dp ! 0 ! c = c)"
proof (induction k)
  case 0
  then show ?case by simp
next
  case (Suc k)
  let ?dp = "fold (\<lambda>j dp. setCell dp 0 j j) [0..<k] dp"
  from Suc have t: "table m n ?dp" and v0: "\<forall>r\<le>m. ?dp ! r ! 0 = r"
    and v: "\<forall>c<k. ?dp ! 0 ! c = c" and k: "k \<le> n"
    by simp_all
  have a: "\<forall>r\<le>m. setCell ?dp 0 k k ! r ! 0 = r"
    using nth_setCell [OF t, of 0 k _ 0 k] k v0 by auto
  have b: "\<forall>c<Suc k. setCell ?dp 0 k k ! 0 ! c = c"
    using nth_setCell [OF t, of 0 k 0 _ k] k v by auto
  from a b table_setCell [OF t, of 0 k k] show ?case by simp
qed

lemma prefixDistance_0 [simp]: "prefixDistance s1 s2 0 c = min (length s2) c"
  by (simp add: prefixDistance_def)

lemma prefixDistance_0' [simp]: "prefixDistance s1 s2 r 0 = min (length s1) r"
  by (simp add: prefixDistance_def)

lemma prefixDistance_Suc:
  assumes "i < length s1" "j < length s2"
  shows "prefixDistance s1 s2 (Suc i) (Suc j) =
           (if s1 ! i = s2 ! j then prefixDistance s1 s2 i j
            else Suc (min (prefixDistance s1 s2 i (Suc j))
                       (min (prefixDistance s1 s2 (Suc i) j) (prefixDistance s1 s2 i j))))"
  using assms lev_snoc [of "take i s1" "s1 ! i" "take j s2" "s2 ! j"]
  by (simp add: prefixDistance_def take_Suc_conv_app_nth)

lemma filled_start:
  assumes "table (length s1) (length s2) dp"
    and "\<forall>r\<le>length s1. dp ! r ! 0 = r" and "\<forall>c\<le>length s2. dp ! 0 ! c = c"
  shows "filled s1 s2 1 1 dp"
  using assms by (auto simp: filled_def)

lemma filled_fillCell:
  assumes f: "filled s1 s2 i j dp" and i: "1 \<le> i" "i \<le> length s1" and j: "1 \<le> j" "j \<le> length s2"
  shows "filled s1 s2 i (Suc j) (fillCell s1 s2 i j dp)"
proof -
  let ?m = "length s1" and ?n = "length s2"
  let ?D = "prefixDistance s1 s2"
  from f have t: "table ?m ?n dp" by (simp add: filled_def)
  from f have known: "\<And>r c. r \<le> ?m \<Longrightarrow> c \<le> ?n \<Longrightarrow> r < i \<or> (r = i \<and> c < j) \<or> c = 0 \<or> r = 0
      \<Longrightarrow> dp ! r ! c = ?D r c"
    unfolding filled_def by blast
  obtain i' j' where ij: "i = Suc i'" "j = Suc j'" using i j by (cases i; cases j) auto
  have d1: "dp ! (i - 1) ! (j - 1) = ?D i' j'" using known [of i' j'] ij i j by simp
  have d2: "dp ! (i - 1) ! j = ?D i' j" using known [of i' j] ij i j by simp
  have d3: "dp ! i ! (j - 1) = ?D i j'" using known [of i j'] ij i j by simp
  have rec: "?D i j =
     (if s1 ! (i - 1) = s2 ! (j - 1) then ?D i' j'
      else Suc (min (?D i' j) (min (?D i j') (?D i' j'))))"
    using prefixDistance_Suc [of i' s1 j' s2] ij i j by simp
  define v where "v = (if s1 ! (i - 1) = s2 ! (j - 1) then dp ! (i - 1) ! (j - 1)
     else Min {dp ! (i - 1) ! j + 1, dp ! i ! (j - 1) + 1, dp ! (i - 1) ! (j - 1) + 1})"
  have v: "v = ?D i j" unfolding v_def rec d1 d2 d3 by (simp add: min_def)
  have fc: "fillCell s1 s2 i j dp = setCell dp i j v"
    by (simp add: fillCell_def v_def)
  have "\<And>r c. r \<le> ?m \<Longrightarrow> c \<le> ?n \<Longrightarrow> r < i \<or> (r = i \<and> c < Suc j) \<or> c = 0 \<or> r = 0
      \<Longrightarrow> setCell dp i j v ! r ! c = ?D r c"
  proof -
    fix r c assume rc: "r \<le> ?m" "c \<le> ?n" "r < i \<or> (r = i \<and> c < Suc j) \<or> c = 0 \<or> r = 0"
    show "setCell dp i j v ! r ! c = ?D r c"
    proof (cases "r = i \<and> c = j")
      case True
      then show ?thesis using nth_setCell [OF t, of i j r c v] i j v by simp
    next
      case False
      then have "r < i \<or> (r = i \<and> c < j) \<or> c = 0 \<or> r = 0" using rc by auto
      from known [OF rc(1) rc(2) this] nth_setCell [OF t, of i j r c v] i j rc False
      show ?thesis by simp
    qed
  qed
  with table_setCell [OF t, of i j v] show ?thesis
    unfolding fc filled_def by blast
qed

lemma filled_row:
  assumes "filled s1 s2 i 1 dp" "1 \<le> i" "i \<le> length s1" "k \<le> length s2"
  shows "filled s1 s2 i (Suc k) (fold (\<lambda>j dp. fillCell s1 s2 i j dp) [1..<Suc k] dp)"
  using assms(4)
proof (induction k)
  case 0
  then show ?case using assms(1) by simp
next
  case (Suc k)
  then have "filled s1 s2 i (Suc k) (fold (\<lambda>j dp. fillCell s1 s2 i j dp) [1..<Suc k] dp)"
    by simp
  from filled_fillCell [OF this assms(2) assms(3)] Suc.prems
  show ?case by (simp del: upt_Suc add: fold_upt_Suc)
qed

lemma filled_next_row: "filled s1 s2 i (Suc (length s2)) dp \<Longrightarrow> filled s1 s2 (Suc i) 1 dp"
  unfolding filled_def
  by (metis less_Suc_eq less_Suc_eq_le less_one)

lemma filled_rows:
  assumes "filled s1 s2 1 1 dp" "k \<le> length s1"
  shows "filled s1 s2 (Suc k) 1
           (fold (\<lambda>i dp. fold (\<lambda>j dp. fillCell s1 s2 i j dp) [1..<length s2 + 1] dp)
              [1..<Suc k] dp)"
  using assms(2)
proof (induction k)
  case 0
  then show ?case using assms(1) by simp
next
  case (Suc k)
  let ?dp = "fold (\<lambda>i dp. fold (\<lambda>j dp. fillCell s1 s2 i j dp) [1..<length s2 + 1] dp)
               [1..<Suc k] dp"
  from Suc have "filled s1 s2 (Suc k) 1 ?dp" by simp
  from filled_row [OF this, of "length s2"] Suc.prems
  have "filled s1 s2 (Suc k) (Suc (length s2))
          (fold (\<lambda>j dp. fillCell s1 s2 (Suc k) j dp) [1..<Suc (length s2)] ?dp)"
    by simp
  from filled_next_row [OF this] show ?case
    by (simp del: upt_Suc add: fold_upt_Suc)
qed

lemma editDistance_lev: "editDistance s1 s2 = lev s1 s2"
proof -
  let ?m = "length s1" and ?n = "length s2"
  let ?dp0 = "replicate (?m + 1) (replicate (?n + 1) (0::nat))"
  let ?dp1 = "fold (\<lambda>i dp. setCell dp i 0 i) [0..<?m + 1] ?dp0"
  let ?dp2 = "fold (\<lambda>j dp. setCell dp 0 j j) [0..<?n + 1] ?dp1"
  let ?dp3 = "fold (\<lambda>i dp. fold (\<lambda>j dp. fillCell s1 s2 i j dp) [1..<?n + 1] dp)
                [1..<?m + 1] ?dp2"
  have t0: "table ?m ?n ?dp0" using table_replicate [of ?m ?n] by simp
  from first_column [of "?m + 1" ?m ?n ?dp0] t0
  have t1: "table ?m ?n ?dp1" and c1: "\<forall>r\<le>?m. ?dp1 ! r ! 0 = r"
    by (simp_all del: upt_Suc replicate_Suc add: less_Suc_eq_le)
  from first_row [of "?n + 1" ?n ?m ?dp1] t1 c1
  have t2: "table ?m ?n ?dp2" and c2: "\<forall>r\<le>?m. ?dp2 ! r ! 0 = r"
    and r2: "\<forall>c\<le>?n. ?dp2 ! 0 ! c = c"
    by (simp_all del: upt_Suc replicate_Suc add: less_Suc_eq_le)
  have "filled s1 s2 1 1 ?dp2" by (rule filled_start [OF t2 c2 r2])
  from filled_rows [OF this, of ?m] have "filled s1 s2 (Suc ?m) 1 ?dp3" by simp
  then have "?dp3 ! ?m ! ?n = prefixDistance s1 s2 ?m ?n"
    by (simp add: filled_def)
  then show ?thesis
    by (simp add: editDistance_def prefixDistance_def Let_def)
qed

lemma editDistance_levenshtein: "editDistance s1 s2 = levenshtein s1 s2"
  by (simp add: editDistance_lev levenshtein_lev)

section \<open>The rank of a file\<close>

lemma calculateRank_tier:
  "tier (calculateRank toLowerCase filename query caseSensitive) =
     (let fn = (if caseSensitive then filename else toLowerCase filename);
          q = (if caseSensitive then query else toLowerCase query)
      in if fn = q then 0
         else if getBasename fn = getBasename q \<or> getBasename fn = q then 1
         else if startsWith (getBasename fn) q then 2
         else if includes' (getBasename fn) q then 3
         else if includes' fn q then 4
         else 5)"
  by (simp add: calculateRank_def Let_def)

lemma calculateRank_editDist:
  "editDist (calculateRank toLowerCase filename query caseSensitive) =
     levenshtein (getBasename (if caseSensitive then filename else toLowerCase filename))
       (if caseSensitive then query else toLowerCase query)"
  by (simp add: calculateRank_def Let_def editDistance_levenshtein split: prod.splits)

lemma calculateRank_length:
  "length' (calculateRank toLowerCase filename query caseSensitive) = length filename"
  by (simp add: calculateRank_def Let_def split: prod.splits)

lemma getBasename_file_txt: "getBasename (js ''file.txt'') = js ''file''"
  by code_simp

lemma lev_file: "lev (js ''file'') (js ''file.txt'') = 4"
  by (simp add: js_def)

text \<open>
  C2, as the code has it. The \<open>editDist\<close> field is the Levenshtein distance between the
  basename of the normalized filename and the whole normalized query: the call is
  \<open>_editDistance(basename, q)\<close>, and an extension in the query is not removed.
\<close>

theorem editDist_levenshtein_to_query:
  "editDist (calculateRank toLowerCase filename query caseSensitive) =
     levenshtein (getBasename (normalized toLowerCase caseSensitive filename))
       (normalized toLowerCase caseSensitive query)"
  by (simp add: calculateRank_editDist normalized_def)

text \<open>
  C2, as the specification states it, fails. For the file \<open>file.txt\<close> and the query
  \<open>file.txt\<close>, case-sensitive, both basenames are \<open>file\<close>, at distance 0, and the code
  returns 4, the distance between \<open>file\<close> and \<open>file.txt\<close>.
\<close>

theorem editDist_not_to_query_basename:
  "editDist (calculateRank toLowerCase_latin (js ''file.txt'') (js ''file.txt'') True)
     \<noteq> levenshtein (getBasename (js ''file.txt'')) (getBasename (js ''file.txt''))
   \<and> editDist (calculateRank toLowerCase_latin (js ''file.txt'') (js ''file.txt'') True) = 4"
  by (simp add: calculateRank_editDist getBasename_file_txt levenshtein_lev lev_file)

lemma calculateRank_position:
  "position (calculateRank toLowerCase filename query caseSensitive) =
     (let fn = (if caseSensitive then filename else toLowerCase filename);
          q = (if caseSensitive then query else toLowerCase query);
          p = (if fn = q then 0
               else if getBasename fn = getBasename q \<or> getBasename fn = q then 0
               else if startsWith (getBasename fn) q then 0
               else if includes' (getBasename fn) q then indexOf (getBasename fn) q 0
               else indexOf fn q 0)
      in if p \<ge> 0 then Fin p else PosInf)"
  by (simp add: calculateRank_def Let_def)

lemma js_file_differs: "js ''file.txt'' \<noteq> js ''file''"
  by (simp add: js_def)

lemma indexOf_includes:
  "includes' s q \<Longrightarrow> \<exists>k. indexOf s q 0 = int k \<and> firstOccurrence q s k"
  using indexOf_cases [of s q 0] by (auto simp: includes'_def indexOf_0_first)

text \<open>
  C3. The tier is given by the first rule that applies, in the order of the
  specification; the position is 0 in tiers 0 to 2, the index of the first occurrence
  of the query in the basename in tier 3 and in the whole name in tier 4. The query
  \<open>file\<close> puts \<open>file.txt\<close> in tier 1.
\<close>

theorem calculateRank_tier_rules:
  fixes toLowerCase :: "jsstring \<Rightarrow> jsstring" and filename query :: jsstring
    and caseSensitive :: bool
  defines "fn \<equiv> normalized toLowerCase caseSensitive filename"
    and "q \<equiv> normalized toLowerCase caseSensitive query"
    and "r \<equiv> calculateRank toLowerCase filename query caseSensitive"
  shows "tier r =
           (if fn = q then 0
            else if getBasename fn = getBasename q \<or> getBasename fn = q then 1
            else if prefix q (getBasename fn) then 2
            else if sublist q (getBasename fn) then 3
            else if sublist q fn then 4
            else 5)
         \<and> (tier r \<le> 2 \<longrightarrow> position r = Fin 0)
         \<and> (tier r = 3 \<longrightarrow> (\<exists>k. position r = Fin (int k) \<and> firstOccurrence q (getBasename fn) k))
         \<and> (tier r = 4 \<longrightarrow> (\<exists>k. position r = Fin (int k) \<and> firstOccurrence q fn k))
         \<and> (caseSensitive \<or> toLowerCase (js ''file.txt'') = js ''file.txt'' \<and> toLowerCase (js ''file'') = js ''file''
              \<longrightarrow> tier (calculateRank toLowerCase (js ''file.txt'') (js ''file'') caseSensitive) = 1)"
proof -
  have t: "tier r =
           (if fn = q then 0
            else if getBasename fn = getBasename q \<or> getBasename fn = q then 1
            else if prefix q (getBasename fn) then 2
            else if sublist q (getBasename fn) then 3
            else if sublist q fn then 4
            else 5)"
    unfolding r_def fn_def q_def normalized_def
    by (simp add: calculateRank_tier Let_def startsWith_prefix includes_sublist)
  have p: "position r =
     (let p = (if fn = q then 0
               else if getBasename fn = getBasename q \<or> getBasename fn = q then 0
               else if prefix q (getBasename fn) then 0
               else if sublist q (getBasename fn) then indexOf (getBasename fn) q 0
               else indexOf fn q 0)
      in if p \<ge> 0 then Fin p else PosInf)"
    unfolding r_def fn_def q_def normalized_def
    by (simp add: calculateRank_position Let_def startsWith_prefix includes_sublist)
  have low: "tier r \<le> 2 \<longrightarrow> position r = Fin 0"
    unfolding t p by (simp add: Let_def)
  have three: "tier r = 3 \<longrightarrow> (\<exists>k. position r = Fin (int k) \<and> firstOccurrence q (getBasename fn) k)"
  proof
    assume "tier r = 3"
    then have c: "fn \<noteq> q" "\<not> (getBasename fn = getBasename q \<or> getBasename fn = q)"
      "\<not> prefix q (getBasename fn)" "sublist q (getBasename fn)"
      unfolding t by (auto split: if_splits)
    from indexOf_includes [of "getBasename fn" q] c(4)
    obtain k where "indexOf (getBasename fn) q 0 = int k" "firstOccurrence q (getBasename fn) k"
      by (auto simp: includes_sublist)
    with c show "\<exists>k. position r = Fin (int k) \<and> firstOccurrence q (getBasename fn) k"
      unfolding p by (auto simp: Let_def)
  qed
  have four: "tier r = 4 \<longrightarrow> (\<exists>k. position r = Fin (int k) \<and> firstOccurrence q fn k)"
  proof
    assume "tier r = 4"
    then have c: "fn \<noteq> q" "\<not> (getBasename fn = getBasename q \<or> getBasename fn = q)"
      "\<not> prefix q (getBasename fn)" "\<not> sublist q (getBasename fn)" "sublist q fn"
      unfolding t by (auto split: if_splits)
    from indexOf_includes [of fn q] c(5)
    obtain k where "indexOf fn q 0 = int k" "firstOccurrence q fn k"
      by (auto simp: includes_sublist)
    with c show "\<exists>k. position r = Fin (int k) \<and> firstOccurrence q fn k"
      unfolding p by (auto simp: Let_def)
  qed
  have ex: "caseSensitive \<or> toLowerCase (js ''file.txt'') = js ''file.txt'' \<and> toLowerCase (js ''file'') = js ''file''
              \<longrightarrow> tier (calculateRank toLowerCase (js ''file.txt'') (js ''file'') caseSensitive) = 1"
    by (auto simp: calculateRank_tier Let_def getBasename_file_txt js_file_differs)
  from t low three four ex show ?thesis by blast
qed

theorem calculateRank_tier_rules_witness:
  "tier (calculateRank toLowerCase_latin (js ''MyFile.txt'') (js ''file'') False) = 3
   \<and> position (calculateRank toLowerCase_latin (js ''MyFile.txt'') (js ''file'') False) = Fin 2
   \<and> firstOccurrence (js ''file'') (js ''myfile'') 2
   \<and> tier (calculateRank toLowerCase_latin (js ''file.txt'') (js ''file'') False) = 1"
proof -
  have n: "normalized toLowerCase_latin False (js ''MyFile.txt'') = js ''myfile.txt''"
    "normalized toLowerCase_latin False (js ''file'') = js ''file''"
    "toLowerCase_latin (js ''file.txt'') = js ''file.txt''"
    "toLowerCase_latin (js ''file'') = js ''file''"
    "getBasename (js ''myfile.txt'') = js ''myfile''"
    by code_simp+
  have p: "position (calculateRank toLowerCase_latin (js ''MyFile.txt'') (js ''file'') False) = Fin 2"
    by code_simp
  have t: "tier (calculateRank toLowerCase_latin (js ''MyFile.txt'') (js ''file'') False) = 3"
    by code_simp
  from calculateRank_tier_rules [of toLowerCase_latin "js ''MyFile.txt''" "js ''file''" False]
  show ?thesis
    unfolding n t p by auto
qed

section \<open>The comparator\<close>

lemma calculateRank_isPosition:
  "isPosition (position (calculateRank toLowerCase filename query caseSensitive))"
proof -
  have "isPosition (if p \<ge> 0 then Fin p else PosInf)" for p :: int
    unfolding isPosition_def by (metis nat_0_le)
  then show ?thesis by (simp add: calculateRank_position Let_def)
qed

lemma position_compare:
  assumes "isPosition a" "isPosition b"
  shows "strictNotEqual a b \<longleftrightarrow> a \<noteq> b"
    and "signOf (jsnum_minus a b) < 0 \<longleftrightarrow> jsnum_less a b"
    and "signOf (jsnum_minus a b) = - signOf (jsnum_minus b a)"
    and "\<not> jsnum_less a a"
  using assms unfolding isPosition_def by (auto simp: sgn_if split: if_splits)

lemma compareRanks_less:
  assumes "isPosition (position rA)" "isPosition (position rB)"
  shows "sortsBefore (compareRanks localeCompare rA rB nameA nameB) \<longleftrightarrow>
         rankKeyLess localeCompare (rA, nameA) (rB, nameB)"
proof (cases "position rA = position rB")
  case True
  with position_compare(1,4) [OF assms(2) assms(2)] show ?thesis
    unfolding sortsBefore_def compareRanks_def rankKeyLess_def
    by (auto simp: sgn_if)
next
  case False
  with position_compare(1,2) [OF assms] show ?thesis
    unfolding sortsBefore_def compareRanks_def rankKeyLess_def
    by (auto simp: sgn_if)
qed

lemma compareRanks_tier:
  "tier rA < tier rB \<Longrightarrow> sortsBefore (compareRanks localeCompare rA rB nameA nameB)"
  unfolding sortsBefore_def compareRanks_def by simp

text \<open>
  C1. The comparator puts A before B exactly when the key of A is lexicographically
  smaller than the key of B; a smaller tier alone decides.
\<close>

theorem compareFilesByRelevance_lexicographic:
  "(sortsBefore (compareFilesByRelevance toLowerCase localeCompare filenameA filenameB query caseSensitive)
      \<longleftrightarrow> rankKeyLess localeCompare
            (calculateRank toLowerCase filenameA query caseSensitive, filenameA)
            (calculateRank toLowerCase filenameB query caseSensitive, filenameB))
   \<and> (tier (calculateRank toLowerCase filenameA query caseSensitive)
         < tier (calculateRank toLowerCase filenameB query caseSensitive)
       \<longrightarrow> sortsBefore (compareFilesByRelevance toLowerCase localeCompare filenameA filenameB
                          query caseSensitive))"
  unfolding compareFilesByRelevance_def Let_def
  using compareRanks_less [OF calculateRank_isPosition calculateRank_isPosition]
    compareRanks_tier
  by blast

lemma tier_file_txt: "tier (calculateRank toLowerCase_latin (js ''file.txt'') (js ''file'') False) = 1"
  by code_simp

lemma tier_myfile_txt: "tier (calculateRank toLowerCase_latin (js ''myfile.txt'') (js ''file'') False) = 3"
  by code_simp

theorem compareFilesByRelevance_lexicographic_witness:
  "tier (calculateRank toLowerCase_latin (js ''file.txt'') (js ''file'') False)
     < tier (calculateRank toLowerCase_latin (js ''myfile.txt'') (js ''file'') False)
   \<and> sortsBefore (compareFilesByRelevance toLowerCase_latin compareUnits
                    (js ''file.txt'') (js ''myfile.txt'') (js ''file'') False)"
  using compareFilesByRelevance_lexicographic
          [of toLowerCase_latin compareUnits "js ''file.txt''" "js ''myfile.txt''" "js ''file''" False,
           THEN conjunct2]
  by (simp add: tier_file_txt tier_myfile_txt)

lemma calculateRank_tier_le: "tier (calculateRank toLowerCase filename query caseSensitive) \<le> 5"
  by (simp add: calculateRank_tier Let_def)

lemma calculateRank_absent_tier:
  "position (calculateRank toLowerCase filename query caseSensitive) = PosInf
   \<longleftrightarrow> tier (calculateRank toLowerCase filename query caseSensitive) = 5"
proof -
  let ?fn = "if caseSensitive then filename else toLowerCase filename"
  let ?q = "if caseSensitive then query else toLowerCase query"
  have a: "includes' s q \<Longrightarrow> indexOf s q 0 \<ge> 0" for s q :: jsstring
    using indexOf_includes [of s q] by auto
  have b: "\<not> includes' s q \<Longrightarrow> \<not> indexOf s q 0 \<ge> 0" for s q :: jsstring
    by (simp add: includes'_def)
  show ?thesis
    using a [of "getBasename ?fn" ?q] a [of ?fn ?q] b [of ?fn ?q]
    by (auto simp: calculateRank_tier calculateRank_position Let_def split: if_splits)
qed

text \<open>
  C6. When the classifier gives A no position (infinity) and gives B a concrete one, for
  the same query and flag, the comparator puts B before A: the absent position sorts
  after every concrete one. And a rank of tier 5 has no position.
\<close>

theorem absent_position_sorts_last:
  "(position (calculateRank toLowerCase filenameA query caseSensitive) = PosInf
      \<and> position (calculateRank toLowerCase filenameB query caseSensitive) = Fin k
     \<longrightarrow> sortsBefore (compareFilesByRelevance toLowerCase localeCompare filenameB filenameA
                        query caseSensitive)
         \<and> signOf (compareFilesByRelevance toLowerCase localeCompare filenameA filenameB
                      query caseSensitive) = 1)
   \<and> (tier (calculateRank toLowerCase filename query caseSensitive) = 5
     \<longrightarrow> position (calculateRank toLowerCase filename query caseSensitive) = PosInf)"
proof -
  let ?rA = "calculateRank toLowerCase filenameA query caseSensitive"
  let ?rB = "calculateRank toLowerCase filenameB query caseSensitive"
  have "sortsBefore (compareFilesByRelevance toLowerCase localeCompare filenameB filenameA
                        query caseSensitive)
         \<and> signOf (compareFilesByRelevance toLowerCase localeCompare filenameA filenameB
                      query caseSensitive) = 1"
    if p: "position ?rA = PosInf" "position ?rB = Fin k"
  proof -
    from p(1) have tA: "tier ?rA = 5" by (simp add: calculateRank_absent_tier)
    from p(2) have "tier ?rB \<noteq> 5" using calculateRank_absent_tier [of toLowerCase filenameB query caseSensitive] by auto
    with calculateRank_tier_le [of toLowerCase filenameB query caseSensitive]
    have tB: "tier ?rB < 5" by simp
    with tA show ?thesis
      by (simp add: compareFilesByRelevance_def compareRanks_def sortsBefore_def Let_def)
  qed
  then show ?thesis using calculateRank_absent_tier by blast
qed

theorem absent_position_sorts_last_witness:
  "position (calculateRank toLowerCase_latin (js ''readme.md'') (js ''file'') False) = PosInf
   \<and> position (calculateRank toLowerCase_latin (js ''myfile.txt'') (js ''file'') False) = Fin 2
   \<and> sortsBefore (compareFilesByRelevance toLowerCase_latin compareUnits (js ''myfile.txt'')
                    (js ''readme.md'') (js ''file'') False)
   \<and> tier (calculateRank toLowerCase_latin (js ''readme.md'') (js ''file'') False) = 5"
proof -
  have p: "position (calculateRank toLowerCase_latin (js ''readme.md'') (js ''file'') False) = PosInf"
    "position (calculateRank toLowerCase_latin (js ''myfile.txt'') (js ''file'') False) = Fin (int 2)"
    "tier (calculateRank toLowerCase_latin (js ''readme.md'') (js ''file'') False) = 5"
    by code_simp+
  from absent_position_sorts_last
         [of toLowerCase_latin "js ''readme.md''" "js ''file''" False "js ''myfile.txt''" 2
             compareUnits "js ''readme.md''"]
  show ?thesis using p by simp
qed

text \<open>Where \<open>localeCompare\<close> gives 0 on equal names, so does the comparator; where
  \<open>localeCompare\<close> changes sign with the order of its arguments, so does the comparator.\<close>

lemma compare_reflexive_antisymmetric:
  "(localeCompare filenameA filenameA = 0
      \<longrightarrow> compareFilesByRelevance toLowerCase localeCompare filenameA filenameA query caseSensitive = Fin 0)
   \<and> (sgn (localeCompare filenameA filenameB) = - sgn (localeCompare filenameB filenameA)
      \<longrightarrow> signOf (compareFilesByRelevance toLowerCase localeCompare filenameA filenameB query caseSensitive)
          = - signOf (compareFilesByRelevance toLowerCase localeCompare filenameB filenameA query caseSensitive))"
proof -
  let ?rA = "calculateRank toLowerCase filenameA query caseSensitive"
  let ?rB = "calculateRank toLowerCase filenameB query caseSensitive"
  have pA: "isPosition (position ?rA)" and pB: "isPosition (position ?rB)"
    by (rule calculateRank_isPosition)+
  have refl: "\<not> strictNotEqual (position ?rA) (position ?rA)"
    using position_compare(1) [OF pA pA] by simp
  have ne: "strictNotEqual (position ?rA) (position ?rB) \<longleftrightarrow> strictNotEqual (position ?rB) (position ?rA)"
    using position_compare(1) [OF pA pB] position_compare(1) [OF pB pA] by auto
  have sw: "signOf (jsnum_minus (position ?rA) (position ?rB))
              = - signOf (jsnum_minus (position ?rB) (position ?rA))"
    by (rule position_compare(3) [OF pA pB])
  have one: "localeCompare filenameA filenameA = 0
      \<longrightarrow> compareFilesByRelevance toLowerCase localeCompare filenameA filenameA query caseSensitive = Fin 0"
    using refl by (simp add: compareFilesByRelevance_def compareRanks_def Let_def)
  have two: "sgn (localeCompare filenameA filenameB) = - sgn (localeCompare filenameB filenameA)
      \<longrightarrow> signOf (compareFilesByRelevance toLowerCase localeCompare filenameA filenameB query caseSensitive)
          = - signOf (compareFilesByRelevance toLowerCase localeCompare filenameB filenameA query caseSensitive)"
    using ne sw
    by (auto simp: compareFilesByRelevance_def compareRanks_def Let_def sgn_if)
  from one two show ?thesis by blast
qed

section \<open>The highlighter\<close>

subsection \<open>The positions found\<close>

lemma filter_upt_none: "(\<forall>j. p \<le> j \<and> j < n \<longrightarrow> \<not> P j) \<Longrightarrow> filter P [p..<n] = []"
  by (auto simp: filter_empty_conv)

lemma filter_upt_first:
  assumes "p \<le> k" "k < n" "P k" "\<forall>j. p \<le> j \<and> j < k \<longrightarrow> \<not> P j"
  shows "filter P [p..<n] = k # filter P [Suc k..<n]"
proof -
  have "[p..<n] = [p..<k] @ k # [Suc k..<n]"
    using assms(1,2) by (metis le_Suc_ex less_imp_le_nat upt_add_eq_append upt_conv_Cons)
  moreover have "filter P [p..<k] = []" using assms(4) by (auto simp: filter_empty_conv)
  ultimately show ?thesis using assms(3) by simp
qed

lemma occursAt_inside: "occursAt s q k \<Longrightarrow> p < length s \<Longrightarrow> \<not> occursAt s q p \<Longrightarrow> k < length s"
  by (cases q) (auto simp: occursAt_def)

text \<open>The \<open>while\<close> loop finds the occurrences from \<open>searchPos\<close> on, in increasing order.\<close>

lemma findPositions_eq:
  "findPositions fn q queryLength searchPos positions =
     positions @ map (mkSpan queryLength) (filter (occursAt fn q) [searchPos..<length fn])"
proof (induction fn q queryLength searchPos positions rule: findPositions.induct)
  case (1 fn q queryLength searchPos positions)
  show ?case
  proof (cases "searchPos < length fn")
    case False
    then show ?thesis by (subst findPositions.simps) simp
  next
    case True
    from indexOf_cases [of fn q searchPos] show ?thesis
    proof
      assume n: "indexOf fn q searchPos = - 1"
      then have "\<forall>k\<ge>searchPos. \<not> occursAt fn q k"
        using True by (simp add: indexOf_none occursAt_occurs)
      then have "filter (occursAt fn q) [searchPos..<length fn] = []"
        by (auto simp: filter_empty_conv)
      with n True show ?thesis by (subst findPositions.simps) simp
    next
      assume "\<exists>k. indexOf fn q searchPos = int k"
      then obtain k where k: "indexOf fn q searchPos = int k" by blast
      then have f: "searchPos \<le> k" "occursAt fn q k"
        "\<forall>j. searchPos \<le> j \<and> j < k \<longrightarrow> \<not> occursAt fn q j"
        using True by (simp_all add: indexOf_some occursAt_occurs)
      have kn: "k < length fn"
      proof (cases "k = searchPos")
        case True
        with \<open>searchPos < length fn\<close> show ?thesis by simp
      next
        case False
        with f have "\<not> occursAt fn q searchPos" by simp
        from occursAt_inside [OF f(2) True this] show ?thesis .
      qed
      have fl: "filter (occursAt fn q) [searchPos..<length fn]
                  = k # filter (occursAt fn q) [Suc k..<length fn]"
        by (rule filter_upt_first [OF f(1) kn f(2) f(3)])
      have "int k \<noteq> - 1" by simp
      from "1.IH" [OF True refl, of] k this
      have ih: "findPositions fn q queryLength (nat (int k) + 1)
                  (positions @ [\<lparr>start = nat (int k), end' = nat (int k) + queryLength\<rparr>]) =
                (positions @ [\<lparr>start = nat (int k), end' = nat (int k) + queryLength\<rparr>]) @
                map (mkSpan queryLength) (filter (occursAt fn q) [nat (int k) + 1..<length fn])"
        by simp
      have "findPositions fn q queryLength searchPos positions =
              findPositions fn q queryLength (nat (int k) + 1)
                (positions @ [\<lparr>start = nat (int k), end' = nat (int k) + queryLength\<rparr>])"
        using True k by (subst findPositions.simps) (simp add: Let_def)
      with ih fl show ?thesis by (simp add: mkSpan_def)
    qed
  qed
qed

lemma matchPositions_eq:
  "matchPositions toLowerCase filename query caseSensitive =
     map (mkSpan (length query))
       (filter (occursAt (normalized toLowerCase caseSensitive filename)
                         (normalized toLowerCase caseSensitive query))
          [0..<length (normalized toLowerCase caseSensitive filename)])"
  by (simp add: matchPositions_def Let_def findPositions_eq normalized_def)

subsection \<open>The merged spans\<close>

lemma separated_snoc:
  "separated (ms @ [x]) \<longleftrightarrow> separated ms \<and> (ms = [] \<or> end' (last ms) < start x)"
  by (induction ms rule: separated.induct) auto

lemma separated_replace_last:
  assumes "ms \<noteq> []" "separated ms" "start y = start (last ms)"
  shows "separated (butlast ms @ [y])"
proof -
  from assms(1) have ms: "ms = butlast ms @ [last ms]" by simp
  from assms(2) have "separated (butlast ms @ [last ms])" using ms by simp
  then show ?thesis using assms(3) by (simp add: separated_snoc)
qed

lemma separated_mergeStep:
  assumes "separated merged"
  shows "separated (mergeStep pos merged)"
proof (cases "merged = [] \<or> start pos > end' (last merged)")
  case True
  with assms show ?thesis by (auto simp: mergeStep_def separated_snoc)
next
  case False
  then have "separated (butlast merged @ [(last merged)\<lparr>end' := max (end' (last merged)) (end' pos)\<rparr>])"
    using assms by (intro separated_replace_last) auto
  with False show ?thesis by (simp add: mergeStep_def)
qed

lemma separated_fold: "separated merged \<Longrightarrow> separated (fold mergeStep positions merged)"
  by (induction positions arbitrary: merged) (simp_all add: separated_mergeStep)

lemma separated_mergePositions: "separated (mergePositions positions)"
  by (simp add: mergePositions_def separated_fold)

lemma proper_mergeStep:
  assumes "\<forall>m\<in>set merged. start m \<le> end' m" "start pos \<le> end' pos"
  shows "\<forall>m\<in>set (mergeStep pos merged). start m \<le> end' m"
proof (cases "merged = [] \<or> start pos > end' (last merged)")
  case True
  with assms show ?thesis by (auto simp: mergeStep_def)
next
  case False
  then have "start (last merged) \<le> end' (last merged)"
    using assms(1) by simp
  moreover have "\<forall>m\<in>set (butlast merged). start m \<le> end' m"
    using assms(1) by (auto dest: in_set_butlastD)
  ultimately show ?thesis using False by (auto simp: mergeStep_def le_max_iff_disj)
qed

lemma proper_fold:
  "\<forall>m\<in>set merged. start m \<le> end' m \<Longrightarrow> \<forall>p\<in>set positions. start p \<le> end' p \<Longrightarrow>
   \<forall>m\<in>set (fold mergeStep positions merged). start m \<le> end' m"
proof (induction positions arbitrary: merged)
  case Nil
  then show ?case by simp
next
  case (Cons p positions)
  from proper_mergeStep [of merged p] Cons.prems
  have "\<forall>m\<in>set (mergeStep p merged). start m \<le> end' m" by simp
  from Cons.IH [OF this] Cons.prems show ?case by simp
qed

lemma set_mergeStep_start:
  "m \<in> set (mergeStep pos merged) \<Longrightarrow> start m = start pos \<or> (\<exists>m'\<in>set merged. start m = start m')"
proof (cases "merged = [] \<or> start pos > end' (last merged)")
  case True
  assume "m \<in> set (mergeStep pos merged)"
  with True show ?thesis by (auto simp: mergeStep_def)
next
  case False
  assume m: "m \<in> set (mergeStep pos merged)"
  from False have "last merged \<in> set merged" by simp
  with m False show ?thesis by (auto simp: mergeStep_def dest: in_set_butlastD)
qed

lemma covered_mergeStep_old: "covered merged x \<Longrightarrow> covered (mergeStep pos merged) x"
proof (cases "merged = [] \<or> start pos > end' (last merged)")
  case True
  assume "covered merged x"
  with True show ?thesis by (auto simp: mergeStep_def covered_def list_ex_iff)
next
  case False
  assume "covered merged x"
  then obtain m where m: "m \<in> set merged" "start m \<le> start x" "end' x \<le> end' m"
    by (auto simp: covered_def list_ex_iff)
  from False have ms: "merged = butlast merged @ [last merged]" by simp
  then have "m \<in> set (butlast merged) \<or> m = last merged"
    using m(1) by (metis Un_iff empty_iff insert_iff list.set(1) list.set(2) set_append)
  with m False show ?thesis
    by (auto simp: mergeStep_def covered_def list_ex_iff)
qed

lemma covered_mergeStep_new:
  assumes "\<forall>m\<in>set merged. start m \<le> start pos"
  shows "covered (mergeStep pos merged) pos"
proof (cases "merged = [] \<or> start pos > end' (last merged)")
  case True
  then show ?thesis by (auto simp: mergeStep_def covered_def list_ex_iff)
next
  case False
  then have "last merged \<in> set merged" by simp
  with assms have "start (last merged) \<le> start pos" by blast
  with False show ?thesis by (auto simp: mergeStep_def covered_def list_ex_iff)
qed

lemma covered_fold:
  assumes "sorted (map start positions)"
    and "\<forall>m\<in>set merged. \<forall>p\<in>set positions. start m \<le> start p"
  shows "(\<forall>p\<in>set positions. covered (fold mergeStep positions merged) p)
         \<and> (\<forall>x. covered merged x \<longrightarrow> covered (fold mergeStep positions merged) x)"
  using assms
proof (induction positions arbitrary: merged)
  case Nil
  then show ?case by simp
next
  case (Cons p positions)
  have s: "sorted (map start positions)" using Cons.prems(1) by simp
  have o: "\<forall>m\<in>set (mergeStep p merged). \<forall>p'\<in>set positions. start m \<le> start p'"
  proof (intro ballI)
    fix m p' assume m: "m \<in> set (mergeStep p merged)" and p': "p' \<in> set positions"
    from set_mergeStep_start [OF m] show "start m \<le> start p'"
    proof
      assume "start m = start p"
      with Cons.prems(1) p' show ?thesis by auto
    next
      assume "\<exists>m'\<in>set merged. start m = start m'"
      with Cons.prems(2) p' show ?thesis by auto
    qed
  qed
  from Cons.IH [OF s o]
  have ih1: "\<forall>p'\<in>set positions. covered (fold mergeStep positions (mergeStep p merged)) p'"
    and ih2: "\<forall>x. covered (mergeStep p merged) x \<longrightarrow>
                covered (fold mergeStep positions (mergeStep p merged)) x"
    by blast+
  have "covered (mergeStep p merged) p"
    by (rule covered_mergeStep_new) (use Cons.prems(2) in simp)
  with ih1 ih2 covered_mergeStep_old show ?case by auto
qed

lemma sorted_filter_upt: "sorted (map (\<lambda>k. start (mkSpan n k)) (filter P [a..<b]))"
proof -
  have "map (\<lambda>k. start (mkSpan n k)) (filter P [a..<b]) = filter P [a..<b]"
    by (simp add: mkSpan_def)
  then show ?thesis by (simp add: sorted_wrt_filter)
qed

lemma sorted_matchPositions:
  "sorted (map start (matchPositions toLowerCase filename query caseSensitive))"
  using sorted_filter_upt by (simp add: matchPositions_eq comp_def)

lemma proper_matchPositions:
  "\<forall>p\<in>set (matchPositions toLowerCase filename query caseSensitive). start p \<le> end' p"
  by (auto simp: matchPositions_eq mkSpan_def)

subsection \<open>The segments\<close>

lemma substring_split: "a \<le> b \<Longrightarrow> substring s a b @ substringFrom s b = substringFrom s a"
proof -
  assume ab: "a \<le> b"
  let ?a = "min a (length s)" and ?b = "min b (length s)"
  from ab have le: "?a \<le> ?b" by simp
  then have "substring s a b = take (?b - ?a) (drop ?a s)"
    by (simp add: substring_def Let_def min_absorb1 max_absorb2)
  moreover have "drop ?b s = drop (?b - ?a) (drop ?a s)" using le by simp
  ultimately show ?thesis
    unfolding substringFrom_def by (metis append_take_drop_id)
qed

lemma chain_separated:
  "separated ms \<Longrightarrow> \<forall>m\<in>set ms. start m \<le> end' m \<Longrightarrow> ms = [] \<or> a \<le> start (hd ms) \<Longrightarrow> chain a ms"
proof (induction ms arbitrary: a)
  case Nil
  then show ?case by simp
next
  case (Cons m ms)
  show ?case
  proof (cases ms)
    case Nil
    with Cons.prems show ?thesis by simp
  next
    case (Cons m' ms')
    with Cons.prems have "separated ms" "\<forall>x\<in>set ms. start x \<le> end' x" "end' m \<le> start (hd ms)"
      by auto
    from Cons.IH [OF this(1) this(2), of "end' m"] this(3) Cons.prems show ?thesis by simp
  qed
qed

lemma texts_append [simp]: "texts (xs @ ys) = texts xs @ texts ys"
  by (simp add: texts_def)

lemma render_append [simp]: "render (xs @ ys) = render xs @ render ys"
  by (simp add: render_def)

lemma matchedTexts_append [simp]: "matchedTexts (xs @ ys) = matchedTexts xs @ matchedTexts ys"
  by (induction xs rule: matchedTexts.induct) simp_all

lemma segments_fold:
  "chain lastEnd ms \<Longrightarrow>
   texts (fst (fold (segmentStep f) ms (segs, lastEnd)))
     @ substringFrom f (snd (fold (segmentStep f) ms (segs, lastEnd)))
   = texts segs @ substringFrom f lastEnd"
proof (induction ms arbitrary: segs lastEnd)
  case Nil
  then show ?case by simp
next
  case (Cons m ms)
  then have c: "lastEnd \<le> start m" "start m \<le> end' m" "chain (end' m) ms" by simp_all
  have "substring f lastEnd (start m) @ substring f (start m) (end' m) @ substringFrom f (end' m)
          = substringFrom f lastEnd"
    using substring_split [OF c(1), of f] substring_split [OF c(2), of f] by simp
  with Cons.IH [OF c(3)] show ?case
    by (simp add: segmentStep_def texts_def)
qed

lemma bold_fold:
  "fold (boldStep f) ms (render segs, lastEnd) =
     (render (fst (fold (segmentStep f) ms (segs, lastEnd))),
      snd (fold (segmentStep f) ms (segs, lastEnd)))"
proof (induction ms arbitrary: segs lastEnd)
  case Nil
  then show ?case by simp
next
  case (Cons m ms)
  have "boldStep f m (render segs, lastEnd) =
          (render (fst (segmentStep f m (segs, lastEnd))), snd (segmentStep f m (segs, lastEnd)))"
    by (simp add: boldStep_def segmentStep_def render_def)
  then show ?case using Cons.IH [of "fst (segmentStep f m (segs, lastEnd))" "snd (segmentStep f m (segs, lastEnd))"]
    by simp
qed

lemma matched_fold:
  "matchedTexts (fst (fold (segmentStep f) ms (segs, lastEnd)))
     = matchedTexts segs @ map (\<lambda>m. substring f (start m) (end' m)) ms"
proof (induction ms arbitrary: segs lastEnd)
  case Nil
  then show ?case by simp
next
  case (Cons m ms)
  show ?case using Cons.IH [of "fst (segmentStep f m (segs, lastEnd))" "snd (segmentStep f m (segs, lastEnd))"]
    by (simp add: segmentStep_def)
qed

lemma chain_merged:
  "chain 0 (mergePositions (matchPositions toLowerCase filename query caseSensitive))"
proof (rule chain_separated)
  show "separated (mergePositions (matchPositions toLowerCase filename query caseSensitive))"
    by (rule separated_mergePositions)
  show "\<forall>m\<in>set (mergePositions (matchPositions toLowerCase filename query caseSensitive)).
          start m \<le> end' m"
    unfolding mergePositions_def
    by (rule proper_fold) (simp_all add: proper_matchPositions)
  show "mergePositions (matchPositions toLowerCase filename query caseSensitive) = [] \<or>
        0 \<le> start (hd (mergePositions (matchPositions toLowerCase filename query caseSensitive)))"
    by simp
qed

text \<open>The string \<open>_boldMatchingText\<close> returns is the rendering of the segments.\<close>

lemma boldMatchingText_render:
  "boldMatchingText toLowerCase filename query caseSensitive =
     render (highlight toLowerCase filename query caseSensitive)"
proof -
  have "fold (boldStep filename) ms ([], 0) =
          (render (fst (fold (segmentStep filename) ms ([], 0))),
           snd (fold (segmentStep filename) ms ([], 0)))" for ms
    using bold_fold [of filename ms "[]" 0] by (simp add: render_def)
  then show ?thesis
    by (simp add: boldMatchingText_def highlight_def Let_def render_def case_prod_unfold)
qed

text \<open>The texts of the segments, in order, make up the filename.\<close>

lemma highlight_texts: "texts (highlight toLowerCase filename query caseSensitive) = filename"
proof -
  let ?ms = "mergePositions (matchPositions toLowerCase filename query caseSensitive)"
  have "texts (fst (fold (segmentStep filename) ?ms ([], 0)))
          @ substringFrom filename (snd (fold (segmentStep filename) ?ms ([], 0))) = filename"
    using segments_fold [OF chain_merged, of filename toLowerCase filename query caseSensitive "[]"]
    by (simp add: texts_def substringFrom_def)
  then show ?thesis
    by (simp add: highlight_def Let_def texts_def case_prod_unfold)
qed

lemma highlight_matched:
  "matchedTexts (highlight toLowerCase filename query caseSensitive) =
     (if query = [] then []
      else map (\<lambda>m. substring filename (start m) (end' m))
             (mergePositions (matchPositions toLowerCase filename query caseSensitive)))"
proof -
  have "matchedTexts (fst (fold (segmentStep filename) ms ([], 0)))
          = map (\<lambda>m. substring filename (start m) (end' m)) ms" for ms
    using matched_fold [of filename ms "[]" 0] by simp
  then show ?thesis
    by (simp add: highlight_def Let_def case_prod_unfold mergePositions_def)
qed

lemma highlight_no_match:
  assumes "\<not> sublist (normalized toLowerCase caseSensitive query)
                      (normalized toLowerCase caseSensitive filename)"
  shows "highlight toLowerCase filename query caseSensitive = [Literal filename]"
proof -
  have "\<not> occursAt (normalized toLowerCase caseSensitive filename)
              (normalized toLowerCase caseSensitive query) k" for k
    using assms by (auto simp: occursAt_occurs simp flip: occurs_sublist)
  then have "matchPositions toLowerCase filename query caseSensitive = []"
    by (simp add: matchPositions_eq filter_empty_conv)
  then show ?thesis by (simp add: highlight_def)
qed

subsection \<open>Matched segments under a lower-casing that keeps positions\<close>

lemma unionOf_self: "p \<in> R \<Longrightarrow> start p < end' p \<Longrightarrow> unionOf R p"
  unfolding unionOf_def by auto

lemma unionOf_extend:
  assumes m: "unionOf R m" and p: "p \<in> R" "start p < end' p"
    and o: "start m \<le> start p" "start p \<le> end' m"
  shows "unionOf R (m\<lparr>end' := max (end' m) (end' p)\<rparr>)"
proof -
  have "\<exists>r\<in>R. start m \<le> start r \<and> start r \<le> i \<and> i < end' r \<and> end' r \<le> max (end' m) (end' p)"
    if i: "start m \<le> i" "i < max (end' m) (end' p)" for i
  proof (cases "i < end' m")
    case True
    with m i obtain r where "r \<in> R" "start m \<le> start r" "start r \<le> i" "i < end' r" "end' r \<le> end' m"
      unfolding unionOf_def by blast
    then show ?thesis by (auto simp: le_max_iff_disj)
  next
    case False
    with i o p show ?thesis by (intro bexI [of _ p]) auto
  qed
  moreover have "start m < max (end' m) (end' p)" using m by (auto simp: unionOf_def less_max_iff_disj)
  ultimately show ?thesis unfolding unionOf_def by simp
qed

lemma unionOf_mergeStep:
  assumes acc: "\<forall>m\<in>set merged. unionOf R m" and p: "pos \<in> R" "start pos < end' pos"
    and o: "\<forall>m\<in>set merged. start m \<le> start pos"
  shows "\<forall>m\<in>set (mergeStep pos merged). unionOf R m"
proof (cases "merged = [] \<or> start pos > end' (last merged)")
  case True
  with acc unionOf_self [OF p] show ?thesis by (auto simp: mergeStep_def)
next
  case False
  then have l: "last merged \<in> set merged" by simp
  have "unionOf R ((last merged)\<lparr>end' := max (end' (last merged)) (end' pos)\<rparr>)"
    using acc l p o False by (intro unionOf_extend) auto
  moreover have "\<forall>m\<in>set (butlast merged). unionOf R m"
    using acc by (auto dest: in_set_butlastD)
  ultimately show ?thesis using False by (auto simp: mergeStep_def)
qed

lemma unionOf_fold:
  assumes "sorted (map start positions)"
    and "\<forall>p\<in>set positions. p \<in> R \<and> start p < end' p"
    and "\<forall>m\<in>set merged. unionOf R m"
    and "\<forall>m\<in>set merged. \<forall>p\<in>set positions. start m \<le> start p"
  shows "\<forall>m\<in>set (fold mergeStep positions merged). unionOf R m"
  using assms
proof (induction positions arbitrary: merged)
  case Nil
  then show ?case by simp
next
  case (Cons p positions)
  have s: "sorted (map start positions)" using Cons.prems(1) by simp
  have r: "\<forall>p\<in>set positions. p \<in> R \<and> start p < end' p" using Cons.prems(2) by simp
  have u: "\<forall>m\<in>set (mergeStep p merged). unionOf R m"
    using Cons.prems by (intro unionOf_mergeStep) auto
  have o: "\<forall>m\<in>set (mergeStep p merged). \<forall>p'\<in>set positions. start m \<le> start p'"
  proof (intro ballI)
    fix m p' assume m: "m \<in> set (mergeStep p merged)" and p': "p' \<in> set positions"
    from set_mergeStep_start [OF m] show "start m \<le> start p'"
    proof
      assume "start m = start p"
      with Cons.prems(1) p' show ?thesis by auto
    next
      assume "\<exists>m'\<in>set merged. start m = start m'"
      with Cons.prems(4) p' show ?thesis by auto
    qed
  qed
  from Cons.IH [OF s r u o] show ?case by simp
qed

lemma occursAt_window:
  assumes "occursAt s q j" "a \<le> j" "j + length q \<le> b" "b \<le> length s"
  shows "occursAt (take (b - a) (drop a s)) q (j - a)"
proof -
  have "drop (j - a) (take (b - a) (drop a s)) = take (b - j) (drop j s)"
    using assms(2,3) by (simp add: drop_take)
  then show ?thesis using assms by (simp add: occursAt_def min_absorb2)
qed

text \<open>
  When the search is case-sensitive, or when lower-casing maps the code units one by
  one, every matched segment is a non-empty text whose normalized form is made of
  occurrences of the normalized query.
\<close>

lemma matched_segments_occurrences:
  assumes pos: "caseSensitive \<or> (\<forall>s. toLowerCase s = map f s)" and ne: "query \<noteq> []"
    and t: "t \<in> set (matchedTexts (highlight toLowerCase filename query caseSensitive))"
  shows "t \<noteq> [] \<and>
         madeOfOccurrences (normalized toLowerCase caseSensitive query)
           (normalized toLowerCase caseSensitive t)"
proof -
  let ?norm = "normalized toLowerCase caseSensitive"
  let ?fn = "?norm filename" and ?q = "?norm query"
  let ?ps = "matchPositions toLowerCase filename query caseSensitive"
  from pos obtain g where g: "\<And>s. ?norm s = map g s"
  proof (cases caseSensitive)
    case True
    then have "\<And>s. ?norm s = map id s" by (simp add: normalized_def)
    with that show ?thesis by blast
  next
    case False
    with pos have "\<And>s. ?norm s = map f s" by (simp add: normalized_def)
    with that show ?thesis by blast
  qed
  have lq: "length ?q = length query" and lf: "length ?fn = length filename"
    by (simp_all add: g)
  have raw: "start p < end' p \<and> occursAt ?fn ?q (start p) \<and> end' p = start p + length ?q"
    if "p \<in> set ?ps" for p
    using that ne by (auto simp: matchPositions_eq mkSpan_def lq)
  have u: "\<forall>m\<in>set (mergePositions ?ps). unionOf (set ?ps) m"
    unfolding mergePositions_def
  proof (rule unionOf_fold)
    show "sorted (map start ?ps)" by (rule sorted_matchPositions)
    show "\<forall>p\<in>set ?ps. p \<in> set ?ps \<and> start p < end' p" using raw by blast
  qed simp_all
  from t ne obtain m where m: "m \<in> set (mergePositions ?ps)"
    and tm: "t = substring filename (start m) (end' m)"
    by (auto simp: highlight_matched)
  from u m have um: "unionOf (set ?ps) m" by blast
  then have se: "start m < end' m" by (simp add: unionOf_def)
  have bound: "end' m \<le> length filename"
  proof -
    from se have "start m \<le> end' m - 1" "end' m - 1 < end' m" by simp_all
    with um obtain p where p: "p \<in> set ?ps" "end' m - 1 < end' p" "end' p \<le> end' m"
      unfolding unionOf_def by blast
    then have "end' p = end' m" by simp
    moreover from raw [OF p(1)] have "end' p \<le> length ?fn" by (simp add: occursAt_def)
    ultimately show ?thesis by (simp add: lf)
  qed
  have tt: "t = take (end' m - start m) (drop (start m) filename)"
    using se bound by (simp add: tm substring_def Let_def min_absorb1 max_absorb2)
  then have lt: "length t = end' m - start m" using bound by simp
  have nt: "?norm t = take (end' m - start m) (drop (start m) ?fn)"
    by (simp add: g tt take_map drop_map)
  have "\<exists>k. k \<le> i \<and> i < k + length ?q \<and> occurs ?q (?norm t) k" if i: "i < length (?norm t)" for i
  proof -
    from i have "start m \<le> start m + i" "start m + i < end' m" by (simp_all add: g lt)
    with um obtain p where p: "p \<in> set ?ps" "start m \<le> start p" "start p \<le> start m + i"
      "start m + i < end' p" "end' p \<le> end' m"
      unfolding unionOf_def by blast
    from raw [OF p(1)] have o: "occursAt ?fn ?q (start p)" "end' p = start p + length ?q" by simp_all
    have "occursAt (take (end' m - start m) (drop (start m) ?fn)) ?q (start p - start m)"
      using o p bound by (intro occursAt_window) (simp_all add: lf)
    then have "occurs ?q (?norm t) (start p - start m)" by (simp add: nt occursAt_occurs)
    moreover have "start p - start m \<le> i" "i < start p - start m + length ?q"
      using p o by simp_all
    ultimately show ?thesis by blast
  qed
  then have "madeOfOccurrences ?q (?norm t)" by (simp add: madeOfOccurrences_def)
  moreover have "t \<noteq> []" using lt se by auto
  ultimately show ?thesis by simp
qed

section \<open>The filter of the search\<close>

lemma filterE_total: "(\<And>x. p x = Inr (P x)) \<Longrightarrow> filterE p xs = Inr (filter P xs)"
  by (induction xs) simp_all

lemma arraySort_Nil: "arraySort cmp [] = []"
  by (simp add: arraySort_def)

lemma matchesQuery_plain:
  "matchesQuery newRegExp test toLowerCase value caseSensitive False fileName =
     Inr (sublist (normalized toLowerCase caseSensitive value)
                  (normalized toLowerCase caseSensitive fileName))"
  by (simp add: matchesQuery_def normalized_def includes_sublist)

lemma matchesQuery_invalid:
  "newRegExp value (if caseSensitive then [] else js ''i'') = Inl e \<Longrightarrow>
   matchesQuery newRegExp test toLowerCase value caseSensitive True fileName = Inr False"
  by (simp add: matchesQuery_def)

text \<open>
  C7. In regex mode, when the constructor rejects the query, the callback answers
  \<open>false\<close> for every file and the handler posts an empty result list; no exception
  leaves the handler.
\<close>

theorem invalid_regex_no_results:
  "newRegExp value (if caseSensitive then [] else js ''i'') = Inl e \<longrightarrow>
     matchesQuery newRegExp test toLowerCase value caseSensitive True fileName = Inr False
     \<and> onSearch newRegExp test toLowerCase localeCompare value caseSensitive True allFiles
         = Inr (Results [])"
proof
  assume inv: "newRegExp value (if caseSensitive then [] else js ''i'') = Inl e"
  have "filterE (\<lambda>file. matchesQuery newRegExp test toLowerCase value caseSensitive True
                          (fileBasename file)) allFiles
          = Inr (filter (\<lambda>file. False) allFiles)"
    by (rule filterE_total)
      (rule matchesQuery_invalid [of newRegExp "value" caseSensitive e, OF inv])
  then show "matchesQuery newRegExp test toLowerCase value caseSensitive True fileName = Inr False
     \<and> onSearch newRegExp test toLowerCase localeCompare value caseSensitive True allFiles
         = Inr (Results [])"
    using matchesQuery_invalid [of newRegExp "value" caseSensitive e, OF inv]
    by (simp add: onSearch_def arraySort_Nil)
qed

theorem invalid_regex_no_results_witness:
  "onSearch (\<lambda>pattern flags. if pattern = js ''('' then Inl SyntaxError else Inr pattern)
            (\<lambda>regex s. includes' s regex) toLowerCase_latin compareUnits (js ''('') False True
            [\<lparr>fileUri = (1::nat), fileBasename = js ''a(b.txt'', fileRelativePath = js ''src/a(b.txt''\<rparr>,
             \<lparr>fileUri = 2, fileBasename = js ''c.txt'', fileRelativePath = js ''c.txt''\<rparr>]
     = Inr (Results [])"
  using invalid_regex_no_results
          [of "\<lambda>pattern flags. if pattern = js ''('' then Inl SyntaxError else Inr pattern"
              "js ''(''" False SyntaxError "\<lambda>regex s. includes' s regex" toLowerCase_latin
              "js ''c.txt''" compareUnits
              "[\<lparr>fileUri = (1::nat), fileBasename = js ''a(b.txt'', fileRelativePath = js ''src/a(b.txt''\<rparr>,
                \<lparr>fileUri = 2, fileBasename = js ''c.txt'', fileRelativePath = js ''c.txt''\<rparr>]"]
  by simp

text \<open>
  C8. Without regex, a file passes the filter exactly when its name, normalized,
  contains the normalized query; the results are the sorted entries of these files.
  When the normalized query occurs nowhere in the normalized name, the highlighter
  returns the name as one literal segment, and the string it returns is the name.
\<close>

theorem substring_filter_and_plain_name:
  "matchesQuery newRegExp test toLowerCase value caseSensitive False fileName =
     Inr (sublist (normalized toLowerCase caseSensitive value)
                  (normalized toLowerCase caseSensitive fileName))
   \<and> (value \<noteq> [] \<longrightarrow>
        onSearch newRegExp test toLowerCase localeCompare value caseSensitive False allFiles =
          Inr (Results
            (arraySort
               (\<lambda>a b. compareFilesByRelevance toLowerCase localeCompare (label a) (label b)
                         value caseSensitive)
               (map (toResult toLowerCase value caseSensitive)
                  (filter (\<lambda>file. sublist (normalized toLowerCase caseSensitive value)
                                     (normalized toLowerCase caseSensitive (fileBasename file)))
                     allFiles)))))
   \<and> (\<not> sublist (normalized toLowerCase caseSensitive query)
                  (normalized toLowerCase caseSensitive filename) \<longrightarrow>
        highlight toLowerCase filename query caseSensitive = [Literal filename]
        \<and> boldMatchingText toLowerCase filename query caseSensitive = filename)"
proof -
  have "filterE (\<lambda>file. matchesQuery newRegExp test toLowerCase value caseSensitive False
                          (fileBasename file)) allFiles
          = Inr (filter (\<lambda>file. sublist (normalized toLowerCase caseSensitive value)
                                     (normalized toLowerCase caseSensitive (fileBasename file)))
                   allFiles)"
    by (rule filterE_total) (rule matchesQuery_plain)
  then have a: "value \<noteq> [] \<longrightarrow>
        onSearch newRegExp test toLowerCase localeCompare value caseSensitive False allFiles =
          Inr (Results
            (arraySort
               (\<lambda>a b. compareFilesByRelevance toLowerCase localeCompare (label a) (label b)
                         value caseSensitive)
               (map (toResult toLowerCase value caseSensitive)
                  (filter (\<lambda>file. sublist (normalized toLowerCase caseSensitive value)
                                     (normalized toLowerCase caseSensitive (fileBasename file)))
                     allFiles))))"
    by (simp add: onSearch_def)
  have b: "\<not> sublist (normalized toLowerCase caseSensitive query)
                  (normalized toLowerCase caseSensitive filename) \<longrightarrow>
        highlight toLowerCase filename query caseSensitive = [Literal filename]
        \<and> boldMatchingText toLowerCase filename query caseSensitive = filename"
    by (simp add: highlight_no_match boldMatchingText_render render_def)
  from matchesQuery_plain [of newRegExp test toLowerCase "value" caseSensitive fileName] a b
  show ?thesis by blast
qed

theorem substring_filter_and_plain_name_witness:
  "matchesQuery (\<lambda>pattern flags. Inr pattern) (\<lambda>regex s. includes' s regex) toLowerCase_latin
     (js ''file'') False False (js ''MyFile.txt'') = Inr True
   \<and> \<not> sublist (normalized toLowerCase_latin False (js ''zz''))
                (normalized toLowerCase_latin False (js ''MyFile.txt''))
   \<and> highlight toLowerCase_latin (js ''MyFile.txt'') (js ''zz'') False = [Literal (js ''MyFile.txt'')]
   \<and> boldMatchingText toLowerCase_latin (js ''MyFile.txt'') (js ''zz'') False = js ''MyFile.txt''"
proof -
  have y: "includes' (normalized toLowerCase_latin False (js ''MyFile.txt''))
             (normalized toLowerCase_latin False (js ''file''))"
    by code_simp
  have n: "\<not> includes' (normalized toLowerCase_latin False (js ''MyFile.txt''))
               (normalized toLowerCase_latin False (js ''zz''))"
    by code_simp
  from substring_filter_and_plain_name
         [of "\<lambda>pattern flags. Inr pattern" "\<lambda>regex s. includes' s regex" toLowerCase_latin
             "js ''file''" False "js ''MyFile.txt''" compareUnits "[]::nat workspace_file list"
             "js ''zz''" "js ''MyFile.txt''"]
  show ?thesis using y n by (simp add: includes_sublist)
qed

section \<open>The spans of the highlighter\<close>

lemma findPositions_aaa:
  "findPositions (js ''aaa'') (js ''aa'') 2 0 [] = [\<lparr>start = 0, end' = 2\<rparr>, \<lparr>start = Suc 0, end' = 3\<rparr>]"
  by code_simp

lemma mergePositions_aaa:
  "mergePositions [\<lparr>start = 0, end' = 2\<rparr>, \<lparr>start = Suc 0, end' = 3\<rparr>] = [\<lparr>start = 0, end' = 3\<rparr>]"
  by code_simp

lemma segments_aaa:
  "segmentStep (js ''aaa'') \<lparr>start = 0, end' = 3\<rparr> ([], 0)
     = ([Literal [], Matched (js ''aaa'')], 3)"
  by code_simp

lemma length_aa: "length (js ''aa'') = 2" "js ''aa'' \<noteq> []" "substringFrom (js ''aaa'') 3 = []"
  by (simp_all add: js_def substringFrom_def)

text \<open>
  In the offsets the code computes, the merged spans are separated: each starts strictly
  after the end of the one before, so no two overlap or touch; every position found lies
  inside a merged span; the matched segments are the texts cut out of the name at the
  merged spans. For the name \<open>aaa\<close> and the query \<open>aa\<close>, case-insensitive, the
  occurrences at 0 and 1 merge into the one span from 0 to 3.
\<close>

lemma merged_offsets_separated:
  "separated (mergePositions (matchPositions toLowerCase filename query caseSensitive))
   \<and> (\<forall>p\<in>set (matchPositions toLowerCase filename query caseSensitive).
         covered (mergePositions (matchPositions toLowerCase filename query caseSensitive)) p)
   \<and> matchedTexts (highlight toLowerCase filename query caseSensitive) =
       (if query = [] then []
        else map (\<lambda>m. substring filename (start m) (end' m))
               (mergePositions (matchPositions toLowerCase filename query caseSensitive)))
   \<and> (toLowerCase (js ''aaa'') = js ''aaa'' \<and> toLowerCase (js ''aa'') = js ''aa'' \<longrightarrow>
        matchPositions toLowerCase (js ''aaa'') (js ''aa'') False
          = [\<lparr>start = 0, end' = 2\<rparr>, \<lparr>start = 1, end' = 3\<rparr>]
        \<and> mergePositions (matchPositions toLowerCase (js ''aaa'') (js ''aa'') False)
          = [\<lparr>start = 0, end' = 3\<rparr>]
        \<and> highlight toLowerCase (js ''aaa'') (js ''aa'') False
          = [Literal [], Matched (js ''aaa''), Literal []])"
proof -
  let ?ps = "matchPositions toLowerCase filename query caseSensitive"
  have a: "separated (mergePositions ?ps)" by (rule separated_mergePositions)
  have b: "\<forall>p\<in>set ?ps. covered (mergePositions ?ps) p"
    using covered_fold [of ?ps "[]"] sorted_matchPositions [of toLowerCase filename query caseSensitive]
    by (simp add: mergePositions_def)
  have c: "toLowerCase (js ''aaa'') = js ''aaa'' \<and> toLowerCase (js ''aa'') = js ''aa'' \<longrightarrow>
        matchPositions toLowerCase (js ''aaa'') (js ''aa'') False
          = [\<lparr>start = 0, end' = 2\<rparr>, \<lparr>start = 1, end' = 3\<rparr>]
        \<and> mergePositions (matchPositions toLowerCase (js ''aaa'') (js ''aa'') False)
          = [\<lparr>start = 0, end' = 3\<rparr>]
        \<and> highlight toLowerCase (js ''aaa'') (js ''aa'') False
          = [Literal [], Matched (js ''aaa''), Literal []]"
  proof
    assume l: "toLowerCase (js ''aaa'') = js ''aaa'' \<and> toLowerCase (js ''aa'') = js ''aa''"
    then have mp: "matchPositions toLowerCase (js ''aaa'') (js ''aa'') False
          = [\<lparr>start = 0, end' = 2\<rparr>, \<lparr>start = 1, end' = 3\<rparr>]"
      by (simp add: matchPositions_def length_aa findPositions_aaa)
    then show "matchPositions toLowerCase (js ''aaa'') (js ''aa'') False
          = [\<lparr>start = 0, end' = 2\<rparr>, \<lparr>start = 1, end' = 3\<rparr>]
        \<and> mergePositions (matchPositions toLowerCase (js ''aaa'') (js ''aa'') False)
          = [\<lparr>start = 0, end' = 3\<rparr>]
        \<and> highlight toLowerCase (js ''aaa'') (js ''aa'') False
          = [Literal [], Matched (js ''aaa''), Literal []]"
      by (simp add: highlight_def mergePositions_aaa segments_aaa length_aa)
  qed
  from a b c highlight_matched [of toLowerCase filename query caseSensitive]
  show ?thesis by blast
qed

lemma merged_offsets_separated_aaa:
  "toLowerCase_latin (js ''aaa'') = js ''aaa'' \<and> toLowerCase_latin (js ''aa'') = js ''aa''
   \<and> mergePositions (matchPositions toLowerCase_latin (js ''aaa'') (js ''aa'') False)
        = [\<lparr>start = 0, end' = 3\<rparr>]
   \<and> covered [\<lparr>start = 0, end' = 3\<rparr>] \<lparr>start = 1, end' = 3\<rparr>
   \<and> highlight toLowerCase_latin (js ''aaa'') (js ''aa'') False
        = [Literal [], Matched (js ''aaa''), Literal []]"
proof -
  have l: "toLowerCase_latin (js ''aaa'') = js ''aaa''" "toLowerCase_latin (js ''aa'') = js ''aa''"
    by code_simp+
  from merged_offsets_separated [of toLowerCase_latin "js ''aaa''" "js ''aa''" False]
  show ?thesis using l by (simp add: mergePositions_aaa covered_def)
qed

text \<open>
  C4 on the code. The positions are found in the lower-cased name and cut out of the
  original one, and the end of a position is computed from the length of the query as
  typed. The lower case of U+0130 (capital I with dot above) is the two code units
  U+0069 U+0307. For the name U+0130 \<open>xy\<close> and the query \<open>x\<close>, case-insensitive, the
  occurrence is found at index 2 of the lower-cased name, and the segment cut out of the
  name at 2 is \<open>y\<close>: the result is U+0130 \<open>x**y**\<close>, whose matched segment does not
  contain the query. (The texts of the segments still make up the name,
  \<open>highlight_texts\<close>, and \<open>matched_segments_occurrences\<close> covers the lower-casings
  that keep positions.)
\<close>

theorem highlight_length_changing_lower_case:
  "toLowerCase_latin [0x130, 0x78, 0x79] = [0x69, 0x307, 0x78, 0x79]
   \<and> matchPositions toLowerCase_latin [0x130, 0x78, 0x79] (js ''x'') False
       = [\<lparr>start = 2, end' = 3\<rparr>]
   \<and> highlight toLowerCase_latin [0x130, 0x78, 0x79] (js ''x'') False
       = [Literal [0x130, 0x78], Matched (js ''y''), Literal []]
   \<and> boldMatchingText toLowerCase_latin [0x130, 0x78, 0x79] (js ''x'') False
       = [0x130, 0x78] @ js ''**y**''
   \<and> \<not> includes' (toLowerCase_latin (js ''y'')) (toLowerCase_latin (js ''x''))"
  by code_simp

text \<open>
  C5 on the code. The spans are separated as offsets into the lower-cased name, and what
  is emitted is cut out of the original name at these offsets. For the name of three
  U+0130 and the query \<open>i\<close>, case-insensitive, the lower-cased name has six code units
  and the merged spans are (0,1), (2,3) and (4,5); in the name of three code units the
  second matched segment ends at 3 and the third, empty, starts there: two matched
  segments touch, with an empty literal between them. For the name
  U+0069 U+0307 U+0069 U+0307 and the query U+0130, the lower-cased query has two code
  units and occurs at 0 and at 2, two adjacent occurrences; the spans are recorded with
  the length 1 of the query as typed and stay apart as (0,1) and (2,3).
\<close>

theorem highlight_touching_matched_segments:
  "toLowerCase_latin [0x130, 0x130, 0x130] = [0x69, 0x307, 0x69, 0x307, 0x69, 0x307]
   \<and> mergePositions (matchPositions toLowerCase_latin [0x130, 0x130, 0x130] (js ''i'') False)
       = [\<lparr>start = 0, end' = 1\<rparr>, \<lparr>start = 2, end' = 3\<rparr>, \<lparr>start = 4, end' = 5\<rparr>]
   \<and> highlight toLowerCase_latin [0x130, 0x130, 0x130] (js ''i'') False
       = [Literal [], Matched [0x130], Literal [0x130], Matched [0x130], Literal [], Matched [],
          Literal []]
   \<and> boldMatchingText toLowerCase_latin [0x130, 0x130, 0x130] (js ''i'') False
       = js ''**'' @ [0x130] @ js ''**'' @ [0x130] @ js ''**'' @ [0x130] @ js ''******''
   \<and> toLowerCase_latin [0x69, 0x307, 0x69, 0x307] = [0x69, 0x307, 0x69, 0x307]
   \<and> toLowerCase_latin [0x130] = [0x69, 0x307]
   \<and> occursAt [0x69, 0x307, 0x69, 0x307] [0x69, 0x307 :: code_unit] 0
   \<and> occursAt [0x69, 0x307, 0x69, 0x307] [0x69, 0x307 :: code_unit] 2
   \<and> mergePositions (matchPositions toLowerCase_latin [0x69, 0x307, 0x69, 0x307] [0x130] False)
       = [\<lparr>start = 0, end' = 1\<rparr>, \<lparr>start = 2, end' = 3\<rparr>]
   \<and> highlight toLowerCase_latin [0x69, 0x307, 0x69, 0x307] [0x130] False
       = [Literal [], Matched [0x69], Literal [0x307], Matched [0x69], Literal [0x307]]"
  by code_simp

section \<open>The suffix filter of the webview\<close>

lemma normalizedSuffix_withDot: "normalizedSuffix s = withDot s"
  by (simp add: normalizedSuffix_def withDot_def startsWith_prefix)

lemma results_displayResults: "results (displayResults rs st) = rs"
  by (simp add: displayResults_def)

text \<open>
  C10. With a blank filter text, or one without a non-empty suffix, the results are all
  the results, in their order. Otherwise a result is kept exactly when its label, in
  lower case, ends with one of the suffixes, a dot put before those that have none.
\<close>

theorem applyFilter_by_suffix:
  "(trim filterText = [] \<or> suffixesOf toLowerCase filterText = [] \<longrightarrow>
      results (applyFilter toLowerCase filterText st) = allResults st)
   \<and> (trim filterText \<noteq> [] \<and> suffixesOf toLowerCase filterText \<noteq> [] \<longrightarrow>
      results (applyFilter toLowerCase filterText st) =
        filter (\<lambda>r. \<exists>s\<in>set (suffixesOf toLowerCase filterText).
                      suffix (withDot s) (toLowerCase (label r)))
          (allResults st))"
  by (auto simp: applyFilter_def Let_def results_displayResults suffixesOf_def list_ex_iff
        normalizedSuffix_withDot endsWith_suffix
      intro!: filter_cong)

lemma suffixesOf_example:
  "suffixesOf toLowerCase_latin (js '' .TS, js,, '') = [js ''.ts'', js ''js'']"
  "trim (js '' .TS, js,, '') \<noteq> []"
  "withDot (js ''.ts'') = js ''.ts''" "withDot (js ''js'') = js ''.js''"
  "toLowerCase_latin (js ''Main.JS'') = js ''main.js''"
  "toLowerCase_latin (js ''notes.txt'') = js ''notes.txt''"
  "endsWith (js ''main.js'') (js ''.js'')" "\<not> endsWith (js ''main.js'') (js ''.ts'')"
  "\<not> endsWith (js ''notes.txt'') (js ''.js'')" "\<not> endsWith (js ''notes.txt'') (js ''.ts'')"
  unfolding suffixesOf_def normalizedSuffix_withDot [symmetric]
  by code_simp+

theorem applyFilter_by_suffix_witness:
  "results (applyFilter toLowerCase_latin (js '' .TS, js,, '')
     \<lparr>results = [], allResults =
        [\<lparr>uri = (1::nat), label = js ''Main.JS'', description = [], boldedLabel = []\<rparr>,
         \<lparr>uri = 2, label = js ''notes.txt'', description = [], boldedLabel = []\<rparr>],
       selectedIndex = - 1\<rparr>)
   = [\<lparr>uri = 1, label = js ''Main.JS'', description = [], boldedLabel = []\<rparr>]"
  using applyFilter_by_suffix [of "js '' .TS, js,, ''" toLowerCase_latin
     "\<lparr>results = [], allResults =
        [\<lparr>uri = (1::nat), label = js ''Main.JS'', description = [], boldedLabel = []\<rparr>,
         \<lparr>uri = 2, label = js ''notes.txt'', description = [], boldedLabel = []\<rparr>],
       selectedIndex = - 1\<rparr>"]
  by (simp add: suffixesOf_example flip: endsWith_suffix)

section \<open>The order of the results\<close>

lemma positionKey_order:
  assumes "isPosition a" "isPosition b"
  shows "jsnum_less a b \<longleftrightarrow> positionKey a < positionKey b"
    and "a = b \<longleftrightarrow> positionKey a = positionKey b"
  using assms unfolding isPosition_def positionKey_def by auto

lemma compare_sortKey:
  assumes "collation localeCompare collate"
  shows "sortsBefore (compareFilesByRelevance toLowerCase localeCompare a b query caseSensitive)
         \<longleftrightarrow> sortKey toLowerCase collate query caseSensitive a
               < sortKey toLowerCase collate query caseSensitive b"
proof -
  let ?rA = "calculateRank toLowerCase a query caseSensitive"
  let ?rB = "calculateRank toLowerCase b query caseSensitive"
  have pA: "isPosition (position ?rA)" and pB: "isPosition (position ?rB)"
    by (rule calculateRank_isPosition)+
  have "sortsBefore (compareFilesByRelevance toLowerCase localeCompare a b query caseSensitive)
        \<longleftrightarrow> rankKeyLess localeCompare (?rA, a) (?rB, b)"
    unfolding compareFilesByRelevance_def Let_def by (rule compareRanks_less [OF pA pB])
  also have "\<dots> \<longleftrightarrow> sortKey toLowerCase collate query caseSensitive a
               < sortKey toLowerCase collate query caseSensitive b"
    using positionKey_order [OF pA pB] assms
    unfolding rankKeyLess_def sortKey_def Let_def collation_def
    by (simp add: less_le_not_le) (metis less_le_not_le order_class.order_eq_iff)
  finally show ?thesis .
qed

lemma mset_insertSorted: "mset (insertSorted cmp x ys) = add_mset x (mset ys)"
  by (induction ys) simp_all

lemma set_insertSorted: "set (insertSorted cmp x ys) = insert x (set ys)"
  by (induction ys) auto

lemma sorted_insertSorted:
  assumes "\<And>a b. sortsBefore (cmp a b) \<longleftrightarrow> key a < key b"
    and "sorted (map key ys)"
  shows "sorted (map key (insertSorted cmp x ys))"
  using assms(2)
proof (induction ys)
  case Nil
  then show ?case by simp
next
  case (Cons y ys)
  then show ?case
    using assms(1) by (auto simp: set_insertSorted not_less less_imp_le)
qed

lemma filter_insertSorted:
  assumes "\<And>a b. sortsBefore (cmp a b) \<longleftrightarrow> key a < key b"
    and "sorted (map key ys)"
  shows "filter (\<lambda>z. c = key z) (insertSorted cmp x ys) =
           filter (\<lambda>z. c = key z) ys @ (if c = key x then [x] else [])"
  using assms(2)
proof (induction ys)
  case Nil
  then show ?case by simp
next
  case (Cons y ys)
  show ?case
  proof (cases "key x < key y")
    case True
    have "filter (\<lambda>z. key x = key z) (y # ys) = []"
      using Cons.prems True by (auto simp: filter_empty_conv)
    with True show ?thesis using assms(1) by auto
  next
    case False
    from Cons.prems have "sorted (map key ys)" by simp
    from Cons.IH [OF this] False show ?thesis using assms(1) by (auto split: if_splits)
  qed
qed

lemma arraySort_snoc: "arraySort cmp (xs @ [x]) = insertSorted cmp x (arraySort cmp xs)"
  by (simp add: arraySort_def)

lemma arraySort_properties:
  assumes "\<And>a b. sortsBefore (cmp a b) \<longleftrightarrow> key a < key b"
  shows "mset (arraySort cmp xs) = mset xs \<and> sorted (map key (arraySort cmp xs))
         \<and> (\<forall>c. filter (\<lambda>z. c = key z) (arraySort cmp xs) = filter (\<lambda>z. c = key z) xs)"
proof (induction xs rule: rev_induct)
  case Nil
  then show ?case by (simp add: arraySort_def)
next
  case (snoc x xs)
  then have s: "sorted (map key (arraySort cmp xs))" by simp
  have a: "sorted (map key (insertSorted cmp x (arraySort cmp xs)))"
    by (rule sorted_insertSorted [where key = key]) (rule assms, rule s)
  have b: "filter (\<lambda>z. c = key z) (insertSorted cmp x (arraySort cmp xs)) =
           filter (\<lambda>z. c = key z) (arraySort cmp xs) @ (if c = key x then [x] else [])" for c
    by (rule filter_insertSorted [where key = key]) (rule assms, rule s)
  from snoc a b show ?case
    by (simp add: arraySort_snoc mset_insertSorted)
qed

text \<open>The sort of the model returns the stable sort by any key that the comparator
  orders by.\<close>

lemma arraySort_sort_key:
  assumes "\<And>a b. sortsBefore (cmp a b) \<longleftrightarrow> key a < key b"
  shows "arraySort cmp xs = sort_key key xs"
proof -
  from arraySort_properties [where key = key and cmp = cmp and xs = xs] assms
  have p: "mset (arraySort cmp xs) = mset xs" "sorted (map key (arraySort cmp xs))"
    "\<And>c. filter (\<lambda>z. c = key z) (arraySort cmp xs) = filter (\<lambda>z. c = key z) xs"
    by blast+
  show ?thesis
    by (rule properties_for_sort_key [symmetric]) (simp_all add: p)
qed

lemma matchesQuery_answers:
  "matchesQuery newRegExp test toLowerCase value caseSensitive useRegex fileName =
     Inr (matchesQuery newRegExp test toLowerCase value caseSensitive useRegex fileName = Inr True)"
  by (auto simp: matchesQuery_def split: sum.splits)

lemma rank_eqI:
  "tier (a::rank) = tier b \<Longrightarrow> editDist a = editDist b \<Longrightarrow> length' a = length' b \<Longrightarrow>
   position a = position b \<Longrightarrow> a = b"
  by simp

lemma compare_zero:
  "signOf (compareFilesByRelevance toLowerCase localeCompare filenameA filenameB query caseSensitive) = 0
   \<longleftrightarrow> calculateRank toLowerCase filenameA query caseSensitive
         = calculateRank toLowerCase filenameB query caseSensitive
       \<and> localeCompare filenameA filenameB = 0"
proof -
  let ?rA = "calculateRank toLowerCase filenameA query caseSensitive"
  let ?rB = "calculateRank toLowerCase filenameB query caseSensitive"
  have pA: "isPosition (position ?rA)" and pB: "isPosition (position ?rB)"
    by (rule calculateRank_isPosition)+
  have ne: "strictNotEqual (position ?rA) (position ?rB) \<longleftrightarrow> position ?rA \<noteq> position ?rB"
    by (rule position_compare(1) [OF pA pB])
  have nz: "position ?rA \<noteq> position ?rB \<Longrightarrow> signOf (jsnum_minus (position ?rA) (position ?rB)) \<noteq> 0"
    using pA pB unfolding isPosition_def by (auto simp: sgn_if split: if_splits)
  show ?thesis
  proof (cases "?rA = ?rB")
    case True
    then show ?thesis using ne
      by (simp add: compareFilesByRelevance_def compareRanks_def Let_def sgn_if)
  next
    case False
    then have "tier ?rA \<noteq> tier ?rB \<or> editDist ?rA \<noteq> editDist ?rB \<or> length' ?rA \<noteq> length' ?rB
      \<or> position ?rA \<noteq> position ?rB"
      using rank_eqI [of ?rA ?rB] by blast
    with False nz show ?thesis using ne
      by (auto simp: compareFilesByRelevance_def compareRanks_def Let_def sgn_if)
  qed
qed

lemma compare_tie:
  assumes "calculateRank toLowerCase filenameA query caseSensitive
         = calculateRank toLowerCase filenameB query caseSensitive"
  shows "compareFilesByRelevance toLowerCase localeCompare filenameA filenameB query caseSensitive
         = Fin (localeCompare filenameA filenameB)"
proof -
  have "isPosition (position (calculateRank toLowerCase filenameB query caseSensitive))"
    by (rule calculateRank_isPosition)
  from position_compare(1) [OF this this] assms show ?thesis
    by (simp add: compareFilesByRelevance_def compareRanks_def Let_def)
qed

lemma compareUnits_collation: "collation compareUnits (\<lambda>s. s)"
proof -
  have "(compareUnits a b < 0 \<longleftrightarrow> a < b) \<and> (0 < compareUnits a b \<longleftrightarrow> b < a)" for a b
    by (induction a b rule: compareUnits.induct) auto
  then show ?thesis by (simp add: collation_def)
qed

lemma onSearch_sorted:
  assumes c: "collation localeCompare collate" and v: "value \<noteq> []"
  shows "onSearch newRegExp test toLowerCase localeCompare value caseSensitive useRegex allFiles =
     Inr (Results
       (sort_key (\<lambda>r. sortKey toLowerCase collate value caseSensitive (label r))
          (map (toResult toLowerCase value caseSensitive)
             (filter (\<lambda>file. matchesQuery newRegExp test toLowerCase value caseSensitive useRegex
                                (fileBasename file) = Inr True)
                allFiles))))"
proof -
  have "filterE (\<lambda>file. matchesQuery newRegExp test toLowerCase value caseSensitive useRegex
                          (fileBasename file)) allFiles
          = Inr (filter (\<lambda>file. matchesQuery newRegExp test toLowerCase value caseSensitive useRegex
                                (fileBasename file) = Inr True) allFiles)"
    by (rule filterE_total) (rule matchesQuery_answers)
  moreover have "arraySort
                  (\<lambda>a b. compareFilesByRelevance toLowerCase localeCompare (label a) (label b)
                            value caseSensitive)
                  (map (toResult toLowerCase value caseSensitive)
                     (filter (\<lambda>file. matchesQuery newRegExp test toLowerCase value caseSensitive
                                        useRegex (fileBasename file) = Inr True) allFiles))
        = sort_key (\<lambda>r. sortKey toLowerCase collate value caseSensitive (label r))
            (map (toResult toLowerCase value caseSensitive)
               (filter (\<lambda>file. matchesQuery newRegExp test toLowerCase value caseSensitive
                                  useRegex (fileBasename file) = Inr True) allFiles))"
    by (rule arraySort_sort_key) (rule compare_sortKey [OF c])
  ultimately show ?thesis using v by (simp add: onSearch_def)
qed

text \<open>
  C9. The comparator gives 0 on a name against itself and changes sign with the order of
  its arguments, where \<open>localeCompare\<close> does. It gives 0 only when the two ranks are equal
  and \<open>localeCompare\<close> gives 0; when the ranks are equal its result is that of
  \<open>localeCompare\<close>: the name decides the ties. Where \<open>localeCompare\<close> compares names as a
  collation orders them, the sorted list is the stable sort of the candidates by the key
  of tier, edit distance, length, position and name; every arrangement of the candidates
  that is sorted by this key and keeps the candidates of equal key in their order is that
  list; and the handler posts the stable sort of the entries of the files that pass the
  filter. The output is so determined by the candidate list, the query and the flags.
\<close>

theorem ranking_deterministic:
  fixes collate :: "jsstring \<Rightarrow> 'k::linorder"
  shows
  "(localeCompare filenameA filenameA = 0
      \<longrightarrow> compareFilesByRelevance toLowerCase localeCompare filenameA filenameA query caseSensitive = Fin 0)
   \<and> (sgn (localeCompare filenameA filenameB) = - sgn (localeCompare filenameB filenameA)
      \<longrightarrow> signOf (compareFilesByRelevance toLowerCase localeCompare filenameA filenameB query caseSensitive)
          = - signOf (compareFilesByRelevance toLowerCase localeCompare filenameB filenameA query caseSensitive))
   \<and> (signOf (compareFilesByRelevance toLowerCase localeCompare filenameA filenameB query caseSensitive) = 0
      \<longleftrightarrow> calculateRank toLowerCase filenameA query caseSensitive
            = calculateRank toLowerCase filenameB query caseSensitive
          \<and> localeCompare filenameA filenameB = 0)
   \<and> (calculateRank toLowerCase filenameA query caseSensitive
        = calculateRank toLowerCase filenameB query caseSensitive
      \<longrightarrow> compareFilesByRelevance toLowerCase localeCompare filenameA filenameB query caseSensitive
          = Fin (localeCompare filenameA filenameB))
   \<and> (collation localeCompare collate \<longrightarrow>
        arraySort (\<lambda>a b. compareFilesByRelevance toLowerCase localeCompare (label a) (label b)
                           query caseSensitive) rs
          = sort_key (\<lambda>r. sortKey toLowerCase collate query caseSensitive (label r)) rs
        \<and> (\<forall>ys. mset ys = mset rs
                \<and> sorted (map (\<lambda>r. sortKey toLowerCase collate query caseSensitive (label r)) ys)
                \<and> (\<forall>k\<in>set ys.
                      filter (\<lambda>x. sortKey toLowerCase collate query caseSensitive (label k)
                                   = sortKey toLowerCase collate query caseSensitive (label x)) ys
                      = filter (\<lambda>x. sortKey toLowerCase collate query caseSensitive (label k)
                                     = sortKey toLowerCase collate query caseSensitive (label x)) rs)
              \<longrightarrow> ys = arraySort (\<lambda>a b. compareFilesByRelevance toLowerCase localeCompare
                                            (label a) (label b) query caseSensitive) rs)
        \<and> (query \<noteq> [] \<longrightarrow>
             onSearch newRegExp test toLowerCase localeCompare query caseSensitive useRegex allFiles =
               Inr (Results
                 (sort_key (\<lambda>r. sortKey toLowerCase collate query caseSensitive (label r))
                    (map (toResult toLowerCase query caseSensitive)
                       (filter (\<lambda>file. matchesQuery newRegExp test toLowerCase query caseSensitive
                                          useRegex (fileBasename file) = Inr True)
                          allFiles))))))"
proof -
  let ?key = "\<lambda>r. sortKey toLowerCase collate query caseSensitive (label r)"
  let ?cmp = "\<lambda>a b. compareFilesByRelevance toLowerCase localeCompare (label a) (label b)
                      query caseSensitive"
  have list: "arraySort ?cmp rs = sort_key ?key rs
      \<and> (\<forall>ys. mset ys = mset rs \<and> sorted (map ?key ys)
                \<and> (\<forall>k\<in>set ys. filter (\<lambda>x. ?key k = ?key x) ys = filter (\<lambda>x. ?key k = ?key x) rs)
              \<longrightarrow> ys = arraySort ?cmp rs)
      \<and> (query \<noteq> [] \<longrightarrow>
             onSearch newRegExp test toLowerCase localeCompare query caseSensitive useRegex allFiles =
               Inr (Results
                 (sort_key ?key
                    (map (toResult toLowerCase query caseSensitive)
                       (filter (\<lambda>file. matchesQuery newRegExp test toLowerCase query caseSensitive
                                          useRegex (fileBasename file) = Inr True)
                          allFiles)))))"
    if c: "collation localeCompare collate"
  proof -
    have s: "arraySort ?cmp rs = sort_key ?key rs"
      by (rule arraySort_sort_key) (rule compare_sortKey [OF c])
    have u: "ys = arraySort ?cmp rs"
      if "mset ys = mset rs" "sorted (map ?key ys)"
        "\<forall>k\<in>set ys. filter (\<lambda>x. ?key k = ?key x) ys = filter (\<lambda>x. ?key k = ?key x) rs" for ys
      unfolding s using that by (intro properties_for_sort_key [symmetric]) auto
    from s u onSearch_sorted [OF c] show ?thesis by blast
  qed
  from compare_reflexive_antisymmetric [of localeCompare filenameA toLowerCase query caseSensitive filenameB]
    compare_zero [of toLowerCase localeCompare filenameA filenameB query caseSensitive]
    compare_tie [of toLowerCase filenameA query caseSensitive filenameB localeCompare]
    list
  show ?thesis by blast
qed

lemma rank_a_b:
  "calculateRank toLowerCase_latin (js ''a.txt'') (js ''t'') False
     = calculateRank toLowerCase_latin (js ''b.txt'') (js ''t'') False"
  by code_simp

lemma sort_b_a:
  "arraySort (\<lambda>a b. compareFilesByRelevance toLowerCase_latin compareUnits (label a) (label b)
                       (js ''t'') False)
     [\<lparr>uri = (2::nat), label = js ''b.txt'', description = [], boldedLabel = []\<rparr>,
      \<lparr>uri = 1, label = js ''a.txt'', description = [], boldedLabel = []\<rparr>]
   = [\<lparr>uri = 1, label = js ''a.txt'', description = [], boldedLabel = []\<rparr>,
      \<lparr>uri = 2, label = js ''b.txt'', description = [], boldedLabel = []\<rparr>]"
  by code_simp

lemma compareUnits_a_b:
  "compareUnits (js ''a.txt'') (js ''a.txt'') = 0"
  "compareUnits (js ''a.txt'') (js ''b.txt'') = - 1"
  "compareUnits (js ''b.txt'') (js ''a.txt'') = 1"
  by (simp_all add: js_def)

theorem ranking_deterministic_witness:
  "compareUnits (js ''a.txt'') (js ''a.txt'') = 0
   \<and> compareFilesByRelevance toLowerCase_latin compareUnits (js ''a.txt'') (js ''a.txt'') (js ''t'') False
       = Fin 0
   \<and> calculateRank toLowerCase_latin (js ''a.txt'') (js ''t'') False
       = calculateRank toLowerCase_latin (js ''b.txt'') (js ''t'') False
   \<and> compareFilesByRelevance toLowerCase_latin compareUnits (js ''a.txt'') (js ''b.txt'') (js ''t'') False
       = Fin (- 1)
   \<and> collation compareUnits (\<lambda>s. s)
   \<and> sort_key (\<lambda>r. sortKey toLowerCase_latin (\<lambda>s. s) (js ''t'') False (label r))
       [\<lparr>uri = (2::nat), label = js ''b.txt'', description = [], boldedLabel = []\<rparr>,
        \<lparr>uri = 1, label = js ''a.txt'', description = [], boldedLabel = []\<rparr>]
     = [\<lparr>uri = 1, label = js ''a.txt'', description = [], boldedLabel = []\<rparr>,
        \<lparr>uri = 2, label = js ''b.txt'', description = [], boldedLabel = []\<rparr>]"
proof -
  note t = ranking_deterministic
          [of compareUnits "js ''a.txt''" toLowerCase_latin "js ''t''" False "js ''b.txt''"
              "\<lambda>s. s"
              "[\<lparr>uri = (2::nat), label = js ''b.txt'', description = [], boldedLabel = []\<rparr>,
                \<lparr>uri = 1, label = js ''a.txt'', description = [], boldedLabel = []\<rparr>]"
              "\<lambda>pattern flags. Inr pattern" "\<lambda>regex s. includes' s regex" False
              "[]::nat workspace_file list"]
  have col: "collation compareUnits (\<lambda>s. s)" by (rule compareUnits_collation)
  from t have a: "compareFilesByRelevance toLowerCase_latin compareUnits (js ''a.txt'') (js ''a.txt'')
                    (js ''t'') False = Fin 0"
    using compareUnits_a_b(1) by blast
  from t have d: "compareFilesByRelevance toLowerCase_latin compareUnits (js ''a.txt'') (js ''b.txt'')
                    (js ''t'') False = Fin (compareUnits (js ''a.txt'') (js ''b.txt''))"
    using rank_a_b by blast
  from t col have e: "arraySort (\<lambda>a b. compareFilesByRelevance toLowerCase_latin compareUnits
                                  (label a) (label b) (js ''t'') False)
       [\<lparr>uri = (2::nat), label = js ''b.txt'', description = [], boldedLabel = []\<rparr>,
        \<lparr>uri = 1, label = js ''a.txt'', description = [], boldedLabel = []\<rparr>]
     = sort_key (\<lambda>r. sortKey toLowerCase_latin (\<lambda>s. s) (js ''t'') False (label r))
       [\<lparr>uri = (2::nat), label = js ''b.txt'', description = [], boldedLabel = []\<rparr>,
        \<lparr>uri = 1, label = js ''a.txt'', description = [], boldedLabel = []\<rparr>]"
    by blast
  from a d e [symmetric] col rank_a_b show ?thesis
    by (simp only: compareUnits_a_b sort_b_a)
qed

end
